theory Spec2Isabelle
  imports Main "HOL-Library.Char_ord" "HOL-Library.List_Lexorder"
begin

section \<open>Characters and Python string primitives\<close>

text \<open>
  A Python \<^verbatim>\<open>str\<close> is modelled as a \<^typ>\<open>string\<close>: a list of characters, each a
  code point below 256. On that range Python's notion of whitespace (used alike by
  \<^verbatim>\<open>str.strip\<close>, \<^verbatim>\<open>str.split\<close> and the regex class \<^verbatim>\<open>\s\<close>) is the set below, and the
  decimal digits of \<^verbatim>\<open>\d\<close> and \<^verbatim>\<open>int\<close> are \<^verbatim>\<open>0\<close> to \<^verbatim>\<open>9\<close>.
\<close>

definition nl :: char where
  "nl = CHR 0x0A"

definition is_space :: "char \<Rightarrow> bool" where
  "is_space c = (c \<in> set [CHR 0x09, CHR 0x0A, CHR 0x0B, CHR 0x0C, CHR 0x0D,
                           CHR 0x1C, CHR 0x1D, CHR 0x1E, CHR 0x1F, CHR 0x20,
                           CHR 0x85, CHR 0xA0])"

definition is_digit :: "char \<Rightarrow> bool" where
  "is_digit c = (CHR ''0'' \<le> c \<and> c \<le> CHR ''9'')"

text \<open>\<^verbatim>\<open>int(s)\<close> on a string of decimal digits, and \<^verbatim>\<open>str(n)\<close> for a natural number.\<close>

definition digit_val :: "char \<Rightarrow> nat" where
  "digit_val c = of_char c - of_char (CHR ''0'')"

definition int_of :: "string \<Rightarrow> nat" where
  "int_of s = foldl (\<lambda>a c. 10 * a + digit_val c) 0 s"

definition digit_chr :: "nat \<Rightarrow> char" where
  "digit_chr d = char_of (of_char (CHR ''0'') + d)"

fun str_of :: "nat \<Rightarrow> string" where
  "str_of n = (if n < 10 then [digit_chr n] else str_of (n div 10) @ [digit_chr (n mod 10)])"

declare str_of.simps [simp del]

text \<open>\<^verbatim>\<open>s.strip()\<close>, \<^verbatim>\<open>s.split()\<close>, \<^verbatim>\<open>sep.join(xs)\<close>, \<^verbatim>\<open>s.split('\n')\<close>,
  \<^verbatim>\<open>s.startswith(p)\<close>, \<^verbatim>\<open>s.find(p)\<close> and \<^verbatim>\<open>s.replace(old, new)\<close>.\<close>

definition strip :: "string \<Rightarrow> string" where
  "strip s = rev (dropWhile is_space (rev (dropWhile is_space s)))"

fun split_ws_acc :: "string \<Rightarrow> string \<Rightarrow> string list" where
  "split_ws_acc w [] = (if w = [] then [] else [rev w])"
| "split_ws_acc w (c # cs) =
     (if is_space c then (if w = [] then split_ws_acc [] cs else rev w # split_ws_acc [] cs)
      else split_ws_acc (c # w) cs)"

definition split_ws :: "string \<Rightarrow> string list" where
  "split_ws s = split_ws_acc [] s"

fun join :: "string \<Rightarrow> string list \<Rightarrow> string" where
  "join sep [] = []"
| "join sep [x] = x"
| "join sep (x # y # ys) = x @ sep @ join sep (y # ys)"

fun split_on :: "char \<Rightarrow> string \<Rightarrow> string list" where
  "split_on d [] = [[]]"
| "split_on d (c # cs) =
     (if c = d then [] # split_on d cs
      else (case split_on d cs of l # ls \<Rightarrow> (c # l) # ls | [] \<Rightarrow> [[c]]))"

definition startswith :: "string \<Rightarrow> string \<Rightarrow> bool" where
  "startswith s p = (take (length p) s = p)"

fun find_from :: "nat \<Rightarrow> string \<Rightarrow> string \<Rightarrow> nat option" where
  "find_from i pat [] = (if pat = [] then Some i else None)"
| "find_from i pat (c # cs) =
     (if startswith (c # cs) pat then Some i else find_from (Suc i) pat cs)"

definition find_str :: "string \<Rightarrow> string \<Rightarrow> nat option" where
  "find_str s pat = find_from 0 pat s"

fun replace_char2 :: "string \<Rightarrow> string" where
  "replace_char2 [] = []"
| "replace_char2 [c] = [c]"
| "replace_char2 (a # b # cs) =
     (if a = CHR 0x0D \<and> b = CHR 0x0A then CHR 0x0A # replace_char2 cs
      else a # replace_char2 (b # cs))"

definition normalize_newlines :: "string \<Rightarrow> string" where
  "normalize_newlines content =
     map (\<lambda>c. if c = CHR 0x0D then CHR 0x0A else c) (replace_char2 content)"

section \<open>A backtracking matcher for the regular expressions of the scripts\<close>

text \<open>
  Character classes and patterns are data; the matcher follows the priority order of
  Python's \<^verbatim>\<open>re\<close> engine: the left alternative first, a greedy repetition the longest
  first, a lazy one the shortest first, backtracking on failure. Repetition is over a
  single character class, which is all the scripts' patterns use. The flags of a call
  select the atoms: \<open>Bos\<close> and \<open>Eos\<close> are \<^verbatim>\<open>^\<close> and \<^verbatim>\<open>$\<close> without \<^verbatim>\<open>re.MULTILINE\<close>,
  \<open>Bol\<close> and \<open>Eol\<close> with it; \<open>AnyChar\<close> is \<^verbatim>\<open>.\<close> under \<^verbatim>\<open>re.DOTALL\<close>, and
  \<open>NotC (Lit nl)\<close> is \<^verbatim>\<open>.\<close> without it.
\<close>

datatype cls =
    Lit char
  | Range char char
  | Space
  | Digit
  | AnyChar
  | NotC cls
  | Or cls cls

fun in_cls :: "cls \<Rightarrow> char \<Rightarrow> bool" where
  "in_cls (Lit a) c = (c = a)"
| "in_cls (Range a b) c = (a \<le> c \<and> c \<le> b)"
| "in_cls Space c = is_space c"
| "in_cls Digit c = is_digit c"
| "in_cls AnyChar c = True"
| "in_cls (NotC x) c = (\<not> in_cls x c)"
| "in_cls (Or x y) c = (in_cls x c \<or> in_cls y c)"

datatype regex =
    Chr cls
  | Eps
  | Seq regex regex
  | Alt regex regex
  | Star cls
  | LazyStar cls
  | Group nat regex
  | Ahead regex
  | NotBehind cls
  | Bos
  | Bol
  | Eos
  | Eol
  | EndZ

text \<open>Derived forms: a sequence, a literal string, \<^verbatim>\<open>x+\<close>, \<^verbatim>\<open>x{n,}\<close> and \<^verbatim>\<open>r?\<close>.\<close>

definition seq :: "regex list \<Rightarrow> regex" where
  "seq rs = foldr Seq rs Eps"

definition lit :: "string \<Rightarrow> regex" where
  "lit s = seq (map (\<lambda>c. Chr (Lit c)) s)"

definition plus :: "cls \<Rightarrow> regex" where
  "plus c = Seq (Chr c) (Star c)"

definition at_least :: "nat \<Rightarrow> cls \<Rightarrow> regex" where
  "at_least n c = seq (replicate n (Chr c) @ [Star c])"

definition opt :: "regex \<Rightarrow> regex" where
  "opt r = Alt r Eps"

text \<open>
  The matcher works on a stack of pending work (the continuation of the match), the
  character before the current position (\<open>None\<close> at the start of the text), the rest
  of the text and the groups captured so far, the latest first. \<open>EndGroup i s0\<close>
  closes group \<open>i\<close>, opened when the rest was \<open>s0\<close>; \<open>Advance n\<close> rejects a match that
  has not gone beyond the position where the rest had length \<open>n\<close> (Python refuses an
  empty match right where the previous match ended).
\<close>

type_synonym groups = "(nat \<times> string) list"

datatype frame = R regex | EndGroup nat string | Advance nat

fun wr :: "regex \<Rightarrow> nat" where
  "wr (Seq a b) = wr a + wr b + 1"
| "wr (Alt a b) = wr a + wr b + 1"
| "wr (Group i r) = wr r + 2"
| "wr (Ahead r) = wr r + 1"
| "wr r = 1"

fun wf :: "frame \<Rightarrow> nat" where
  "wf (R r) = wr r"
| "wf f = 1"

function (sequential) rmatch ::
  "frame list \<Rightarrow> char option \<Rightarrow> string \<Rightarrow> groups \<Rightarrow> (char option \<times> string \<times> groups) option"
where
  "rmatch [] p s g = Some (p, s, g)"
| "rmatch (R (Chr c) # k) p [] g = None"
| "rmatch (R (Chr c) # k) p (x # xs) g = (if in_cls c x then rmatch k (Some x) xs g else None)"
| "rmatch (R Eps # k) p s g = rmatch k p s g"
| "rmatch (R (Seq a b) # k) p s g = rmatch (R a # R b # k) p s g"
| "rmatch (R (Alt a b) # k) p s g =
     (case rmatch (R a # k) p s g of Some res \<Rightarrow> Some res | None \<Rightarrow> rmatch (R b # k) p s g)"
| "rmatch (R (Star c) # k) p [] g = rmatch k p [] g"
| "rmatch (R (Star c) # k) p (x # xs) g =
     (if in_cls c x
      then (case rmatch (R (Star c) # k) (Some x) xs g of
              Some res \<Rightarrow> Some res
            | None \<Rightarrow> rmatch k p (x # xs) g)
      else rmatch k p (x # xs) g)"
| "rmatch (R (LazyStar c) # k) p [] g = rmatch k p [] g"
| "rmatch (R (LazyStar c) # k) p (x # xs) g =
     (case rmatch k p (x # xs) g of
        Some res \<Rightarrow> Some res
      | None \<Rightarrow> (if in_cls c x then rmatch (R (LazyStar c) # k) (Some x) xs g else None))"
| "rmatch (R (Group i r) # k) p s g = rmatch (R r # EndGroup i s # k) p s g"
| "rmatch (EndGroup i s0 # k) p s g = rmatch k p s ((i, take (length s0 - length s) s0) # g)"
| "rmatch (R (Ahead r) # k) p s g =
     (case rmatch [R r] p s g of None \<Rightarrow> None | Some (p', s', g') \<Rightarrow> rmatch k p s g')"
| "rmatch (R (NotBehind c) # k) p s g =
     (case p of None \<Rightarrow> rmatch k p s g | Some x \<Rightarrow> if in_cls c x then None else rmatch k p s g)"
| "rmatch (R Bos # k) p s g = (if p = None then rmatch k p s g else None)"
| "rmatch (R Bol # k) p s g = (if p = None \<or> p = Some nl then rmatch k p s g else None)"
| "rmatch (R Eos # k) p s g = (if s = [] \<or> s = [nl] then rmatch k p s g else None)"
| "rmatch (R Eol # k) p s g = (if s = [] \<or> take 1 s = [nl] then rmatch k p s g else None)"
| "rmatch (R EndZ # k) p s g = (if s = [] then rmatch k p s g else None)"
| "rmatch (Advance n # k) p s g = (if length s < n then rmatch k p s g else None)"
  by pat_completeness auto
termination
  by (relation "measures [\<lambda>(k, p, s, g). length s, \<lambda>(k, p, s, g). sum_list (map wf k)]") auto

text \<open>
  \<open>search\<close> is one \<^verbatim>\<open>pattern.search\<close> from a position: the leftmost position at which the
  pattern matches. It returns the text skipped before the match, the matched text, and
  the state after the match. \<open>scan\<close> is the loop shared by \<^verbatim>\<open>re.finditer\<close> and
  \<^verbatim>\<open>re.sub\<close>: search, resume where the match ended, stop at the first failure; it returns
  the matches with the text before each, and the unmatched tail.
\<close>

fun search ::
  "regex \<Rightarrow> bool \<Rightarrow> char option \<Rightarrow> string
     \<Rightarrow> (string \<times> string \<times> char option \<times> string \<times> groups) option"
where
  "search r adv p [] =
     (case rmatch (R r # (if adv then [Advance 0] else [])) p [] [] of
        Some (p', s', g) \<Rightarrow> Some ([], [], p', s', g)
      | None \<Rightarrow> None)"
| "search r adv p (x # xs) =
     (case rmatch (R r # (if adv then [Advance (length (x # xs))] else [])) p (x # xs) [] of
        Some (p', s', g) \<Rightarrow> Some ([], take (length (x # xs) - length s') (x # xs), p', s', g)
      | None \<Rightarrow>
          (case search r False (Some x) xs of
             Some (skip, mt, p', s', g) \<Rightarrow> Some (x # skip, mt, p', s', g)
           | None \<Rightarrow> None))"

lemma rmatch_length: "rmatch k p s g = Some (p', s', g') \<Longrightarrow> length s' \<le> length s"
  apply (induction k p s g arbitrary: p' s' g' rule: rmatch.induct)
  apply (simp_all only: rmatch.simps split: if_splits option.splits prod.splits)
  apply fastforce+
  done

lemma rmatch_advance:
  "rmatch k p s g = Some (p', s', g') \<Longrightarrow> Advance n \<in> set k \<Longrightarrow> length s' < n"
proof (induction k p s g arbitrary: p' s' g' rule: rmatch.induct)
  case (20 n' k p s g)
  then show ?case
    using rmatch_length [of k p s g p' s' g'] by (auto split: if_splits)
qed (fastforce split: if_splits option.splits)+

lemma search_length:
  "search r adv p s = Some (skip, mt, p', s', g) \<Longrightarrow>
     length s' \<le> length s \<and> (adv \<longrightarrow> length s' < length s) \<and>
     (mt \<noteq> [] \<longrightarrow> length s' < length s)"
proof (induction s arbitrary: adv p skip)
  case Nil
  then show ?case
    by (auto split: option.splits if_splits dest: rmatch_length rmatch_advance)
next
  case (Cons x xs)
  show ?case
  proof (cases "rmatch (R r # (if adv then [Advance (length (x # xs))] else [])) p (x # xs) []")
    case None
    with Cons.prems obtain skip' where
      "search r False (Some x) xs = Some (skip', mt, p', s', g)"
      by (auto split: option.splits)
    from Cons.IH [OF this] show ?thesis by auto
  next
    case (Some res)
    with Cons.prems have *: "res = (p', s', g)" "mt = take (length (x # xs) - length s') (x # xs)"
      by (auto split: option.splits prod.splits)
    from Some * have "length s' \<le> length (x # xs)"
      using rmatch_length by blast
    moreover have "adv \<Longrightarrow> length s' < length (x # xs)"
      using Some * rmatch_advance [of _ p "x # xs" "[]" p' s' g "length (x # xs)"] by auto
    ultimately show ?thesis using * by auto
  qed
qed

function scan ::
  "regex \<Rightarrow> bool \<Rightarrow> char option \<Rightarrow> string \<Rightarrow> (string \<times> string \<times> groups) list \<times> string"
where
  "scan r adv p s =
     (case search r adv p s of
        None \<Rightarrow> ([], s)
      | Some (skip, mt, p', s', g) \<Rightarrow>
          (case scan r (mt = []) p' s' of (ms, rest) \<Rightarrow> ((skip, mt, g) # ms, rest)))"
  by pat_completeness auto
termination
proof (relation "measure (\<lambda>(r, adv, p, s). 2 * length s + (if adv then 0 else 1))", goal_cases)
  case 1
  show ?case by simp
next
  case (2 r adv p s x2 skip y mt z p' w s' g)
  then have "search r adv p s = Some (skip, mt, p', s', g)" by simp
  from search_length [OF this] show ?case by auto
qed

declare scan.simps [simp del]

text \<open>
  \<^verbatim>\<open>re.sub(pattern, repl, string)\<close> with a function or a plain string as replacement,
  \<^verbatim>\<open>re.finditer\<close> (each match as its text and its groups), \<^verbatim>\<open>re.match\<close> and
  \<^verbatim>\<open>match.group(i)\<close>. Every group the scripts read is outside any optional part of its
  pattern, so it is set in every match.
\<close>

definition sub_fn :: "regex \<Rightarrow> (groups \<Rightarrow> string) \<Rightarrow> string \<Rightarrow> string" where
  "sub_fn r f s =
     (case scan r False None s of
        (ms, rest) \<Rightarrow> concat (map (\<lambda>(skip, mt, g). skip @ f g) ms) @ rest)"

definition sub :: "regex \<Rightarrow> string \<Rightarrow> string \<Rightarrow> string" where
  "sub r repl s = sub_fn r (\<lambda>g. repl) s"

definition finditer :: "regex \<Rightarrow> string \<Rightarrow> groups list" where
  "finditer r s = map (\<lambda>(skip, mt, g). g) (fst (scan r False None s))"

definition re_match :: "regex \<Rightarrow> string \<Rightarrow> groups option" where
  "re_match r s = map_option (\<lambda>(p', s', g). g) (rmatch [R r] None s [])"

definition re_search :: "regex \<Rightarrow> string \<Rightarrow> groups option" where
  "re_search r s = map_option (\<lambda>(skip, mt, p', s', g). g) (search r False None s)"

definition grp :: "groups \<Rightarrow> nat \<Rightarrow> string" where
  "grp g i = (case map_of g i of Some t \<Rightarrow> t | None \<Rightarrow> [])"

section \<open>The extraction script: cleaning one entry\<close>

text \<open>The patterns of \<^verbatim>\<open>clean_text\<close>, in the order of the source:
  \<^verbatim>\<open>Character\s*\d+:\s*\<close>,
  \<^verbatim>\<open>[A-Z][A-Za-z\s]+:\s*[A-Z]?\d+:\s*\<close>,
  \<^verbatim>\<open>^[A-Z][A-Za-z\s]+:\s*\<close> (no flag: the start of the text only),
  \<^verbatim>\<open>\s*={5,}\s*\<close>, \<^verbatim>\<open>\s*-{5,}\s*\<close> and \<^verbatim>\<open>\s+\<close>.\<close>

definition upper :: cls where
  "upper = Range (CHR ''A'') (CHR ''Z'')"

definition role_chars :: cls where
  "role_chars = Or (Range (CHR ''A'') (CHR ''Z'')) (Or (Range (CHR ''a'') (CHR ''z'')) Space)"

definition re_character :: regex where
  "re_character =
     seq [lit ''Character'', Star Space, plus Digit, Chr (Lit (CHR '':'')), Star Space]"

definition re_role_code :: regex where
  "re_role_code =
     seq [Chr upper, plus role_chars, Chr (Lit (CHR '':'')), Star Space,
          opt (Chr upper), plus Digit, Chr (Lit (CHR '':'')), Star Space]"

definition re_role_start :: regex where
  "re_role_start = seq [Bos, Chr upper, plus role_chars, Chr (Lit (CHR '':'')), Star Space]"

definition re_eq_rule :: regex where
  "re_eq_rule = seq [Star Space, at_least 5 (Lit (CHR ''='')), Star Space]"

definition re_dash_rule :: regex where
  "re_dash_rule = seq [Star Space, at_least 5 (Lit (CHR ''-'')), Star Space]"

definition re_spaces :: regex where
  "re_spaces = plus Space"

definition markers :: "string list" where
  "markers =
     [''ITEMS '', ''ITEM '', ''You are B;'', ''You are A;'', ''You are Character'',
      ''You are playing a customer service agent'']"

definition truncate_at :: "string \<Rightarrow> string \<Rightarrow> string" where
  "truncate_at marker text =
     (case find_str text marker of Some idx \<Rightarrow> take idx text | None \<Rightarrow> text)"

definition clean_text :: "string \<Rightarrow> string" where
  "clean_text text =
     strip
       (sub re_spaces '' ''
         (sub re_dash_rule '' ''
           (sub re_eq_rule '' ''
             (fold truncate_at markers
               (sub re_role_start []
                 (sub re_role_code []
                   (sub re_character [] text)))))))"

section \<open>The extraction script: collecting the entries of a file\<close>

type_synonym entry = "nat \<times> string"

definition not_nl :: cls where
  "not_nl = NotC (Lit nl)"

definition eq_sign :: cls where
  "eq_sign = Lit (CHR ''='')"

text \<open>\<^verbatim>\<open>monologue_pattern1\<close>, \<^verbatim>\<open>monologue_pattern2\<close> and \<^verbatim>\<open>scenario_pattern\<close>, all used
  with \<^verbatim>\<open>re.DOTALL\<close>:
  \<^verbatim>\<open>---\s*MONOLOGUE[^\n]*---\s*\n(?:\s*[^\d\n][^\n]*\n)?\s*(\d+)\s+SCENARIO:[^\n]*\n=+\n(.*?)(?=\n---|\n\n\d+\s|\Z)\<close>,
  \<^verbatim>\<open>={10,}\nITEM\s+(\d+)\s*-\s*MONOLOGUE[^\n]*\nSource:[^\n]*\n={10,}\n.*?\d+\s+SCENARIO:[^\n]*\n=+\n(.*?)(?=\n+={10,}\nITEM|\n---|\Z)\<close>,
  \<^verbatim>\<open>(?<!\n)(\d+)\s+SCENARIO:[^\n]*\n=+\n(.*?)(?=\n---|\n\n\d+\s|\n={10,}\nITEM|\Z)\<close>.\<close>

definition ahead_dashes :: regex where
  "ahead_dashes = seq [Chr (Lit nl), lit ''---'']"

definition ahead_numbered :: regex where
  "ahead_numbered = seq [Chr (Lit nl), Chr (Lit nl), plus Digit, Chr Space]"

definition monologue_pattern1 :: regex where
  "monologue_pattern1 =
     seq [lit ''---'', Star Space, lit ''MONOLOGUE'', Star not_nl, lit ''---'', Star Space,
          Chr (Lit nl),
          opt (seq [Star Space, Chr (NotC (Or Digit (Lit nl))), Star not_nl, Chr (Lit nl)]),
          Star Space, Group 1 (plus Digit), plus Space, lit ''SCENARIO:'', Star not_nl,
          Chr (Lit nl), plus eq_sign, Chr (Lit nl),
          Group 2 (LazyStar AnyChar),
          Ahead (Alt ahead_dashes (Alt ahead_numbered EndZ))]"

definition monologue_pattern2 :: regex where
  "monologue_pattern2 =
     seq [at_least 10 eq_sign, Chr (Lit nl), lit ''ITEM'', plus Space, Group 1 (plus Digit),
          Star Space, Chr (Lit (CHR ''-'')), Star Space, lit ''MONOLOGUE'', Star not_nl,
          Chr (Lit nl), lit ''Source:'', Star not_nl, Chr (Lit nl),
          at_least 10 eq_sign, Chr (Lit nl),
          LazyStar AnyChar, plus Digit, plus Space, lit ''SCENARIO:'', Star not_nl,
          Chr (Lit nl), plus eq_sign, Chr (Lit nl),
          Group 2 (LazyStar AnyChar),
          Ahead (Alt (seq [plus (Lit nl), at_least 10 eq_sign, Chr (Lit nl), lit ''ITEM''])
                  (Alt ahead_dashes EndZ))]"

definition scenario_pattern :: regex where
  "scenario_pattern =
     seq [NotBehind (Lit nl), Group 1 (plus Digit), plus Space, lit ''SCENARIO:'', Star not_nl,
          Chr (Lit nl), plus eq_sign, Chr (Lit nl),
          Group 2 (LazyStar AnyChar),
          Ahead (Alt ahead_dashes
                  (Alt ahead_numbered
                    (Alt (seq [Chr (Lit nl), at_least 10 eq_sign, Chr (Lit nl), lit ''ITEM''])
                      EndZ)))]"

text \<open>The text of a monologue: \<^verbatim>\<open>' '.join(match.group(2).strip().split())\<close>.\<close>

definition monologue_entry :: "groups \<Rightarrow> entry" where
  "monologue_entry g = (int_of (grp g 1), join '' '' (split_ws (strip (grp g 2))))"

definition extract_monologues :: "regex \<Rightarrow> string \<Rightarrow> entry list \<Rightarrow> entry list" where
  "extract_monologues r content all_entries =
     foldl (\<lambda>es g. es @ [monologue_entry g]) all_entries (finditer r content)"

text \<open>The fallback pass adds a match only when its number is not in the collection yet.\<close>

definition fallback_step :: "entry list \<Rightarrow> groups \<Rightarrow> entry list" where
  "fallback_step es g =
     (if int_of (grp g 1) \<notin> set (map fst es) then es @ [monologue_entry g] else es)"

definition extract_scenarios :: "string \<Rightarrow> entry list \<Rightarrow> entry list" where
  "extract_scenarios content all_entries =
     foldl fallback_step all_entries (finditer scenario_pattern content)"

text \<open>
  The header and metadata lines. \<open>line_re body\<close> is the shape
  \<^verbatim>\<open>^\s*<body>[^\n]*$\<close> under \<^verbatim>\<open>re.MULTILINE\<close> that eleven of the substitutions share;
  the first substitution, \<^verbatim>\<open>---[^\n]*---\<close>, has no flag, and the second is
  \<^verbatim>\<open>^\s*=+\s*$\<close>.
\<close>

definition line_re :: "regex list \<Rightarrow> regex" where
  "line_re body = seq ([Bol, Star Space] @ body @ [Star not_nl, Eol])"

definition break_marker :: string where
  "break_marker = ''###BREAK###''"

definition strip_metadata :: "string \<Rightarrow> string" where
  "strip_metadata c0 =
     (let c1 = sub (seq [lit ''---'', Star not_nl, lit ''---'']) [] c0;
          c2 = sub (seq [Bol, Star Space, plus eq_sign, Star Space, Eol]) [] c1;
          c3 = sub (line_re [plus Digit, plus Space, lit ''SCENARIO:'']) [] c2;
          c4 = sub (line_re [lit ''Script:'']) [] c3;
          c5 = sub (line_re [lit ''Character'', Star Space, plus Digit, Chr (Lit (CHR '':''))])
                 break_marker c4;
          c6 = sub (line_re [lit ''ITEM'', plus Space, plus Digit]) break_marker c5;
          c7 = sub (line_re [lit ''ITEMS'', plus Space, plus Digit, Chr (Lit (CHR ''-'')),
                             plus Digit]) break_marker c6;
          c8 = sub (line_re [lit ''Source:'']) [] c7;
          c9 = sub (line_re [lit ''This must be read'']) [] c8;
          c10 = sub (line_re [lit ''You are playing'']) break_marker c9;
          c11 = sub (line_re [lit ''You are '', Chr upper, Chr (Lit (CHR '';''))])
                  break_marker c10;
          c12 = sub (line_re [lit ''You are Character'']) break_marker c11
      in c12)"

text \<open>The numbered lines: \<^verbatim>\<open>re.match(r'^(\d+)\s+(.*)$', line)\<close> opens an entry, and the
  inner loop gathers its continuation lines. \<open>gather\<close> returns the text parts and the
  lines from the index where the inner loop stopped.\<close>

definition re_numbered :: regex where
  "re_numbered = seq [Bos, Group 1 (plus Digit), plus Space, Group 2 (Star not_nl), Eos]"

definition re_number_start :: regex where
  "re_number_start = seq [Bos, plus Digit, plus Space]"

definition stops :: "string \<Rightarrow> string \<Rightarrow> bool" where
  "stops next_line next_stripped =
     (re_match re_number_start next_line \<noteq> None \<or>
      startswith next_line ''---'' \<or>
      startswith next_stripped ''==='' \<or>
      startswith next_stripped ''ITEM '' \<or>
      startswith next_stripped ''ITEMS '' \<or>
      startswith next_stripped ''Source:'' \<or>
      startswith next_stripped ''Script:'' \<or>
      startswith next_stripped ''Character '' \<or>
      startswith next_stripped ''This must be read'' \<or>
      startswith next_stripped ''You are'')"

fun gather :: "string list \<Rightarrow> string list \<Rightarrow> string list \<times> string list" where
  "gather [] text_parts = (text_parts, [])"
| "gather (next_line # ls) text_parts =
     (if strip next_line = break_marker then (text_parts, ls)
      else if strip next_line = [] then (text_parts, ls)
      else if stops next_line (strip next_line) then (text_parts, next_line # ls)
      else gather ls (text_parts @ [strip next_line]))"

lemma gather_length: "length (snd (gather ls ps)) \<le> length ls"
  by (induction ls arbitrary: ps) (auto simp: le_SucI)

lemma gather_shorter: "(text_parts, ls') = gather ls ps \<Longrightarrow> length ls' \<le> length ls"
  using gather_length [of ls ps] by (metis snd_conv)

function collect_lines :: "string list \<Rightarrow> entry list \<Rightarrow> entry list" where
  "collect_lines [] all_entries = all_entries"
| "collect_lines (line # ls) all_entries =
     (case re_match re_numbered line of
        None \<Rightarrow> collect_lines ls all_entries
      | Some g \<Rightarrow>
          (case gather ls [grp g 2] of
             (text_parts, ls') \<Rightarrow>
               collect_lines ls'
                 (if strip (join '' '' text_parts) \<noteq> []
                  then all_entries @ [(int_of (grp g 1), join '' '' text_parts)]
                  else all_entries)))"
  by pat_completeness auto
termination
  by (relation "measure (\<lambda>(ls, es). length ls)")
     (auto simp: less_Suc_eq_le dest: gather_shorter)

definition process_file :: "string \<Rightarrow> entry list \<Rightarrow> entry list" where
  "process_file raw all_entries =
     (let content = normalize_newlines raw;
          e1 = extract_monologues monologue_pattern1 content all_entries;
          e2 = extract_monologues monologue_pattern2 content e1;
          e3 = extract_scenarios content e2;
          content_cleaned =
            sub scenario_pattern [nl]
              (sub monologue_pattern2 [nl] (sub monologue_pattern1 [nl] content))
      in collect_lines (split_on nl (strip_metadata content_cleaned)) e3)"

text \<open>The files are given in the sorted order of their paths; \<open>None\<close> is a path that
  no longer exists when its turn comes, which the loop skips.\<close>

definition collect_entries :: "string option list \<Rightarrow> entry list" where
  "collect_entries files =
     foldl (\<lambda>es f. case f of None \<Rightarrow> es | Some raw \<Rightarrow> process_file raw es) [] files"

section \<open>The extraction script: sorting, deduplication and output\<close>

fun dedup_loop :: "entry list \<Rightarrow> nat set \<Rightarrow> entry list \<Rightarrow> entry list" where
  "dedup_loop [] seen unique_entries = unique_entries"
| "dedup_loop ((num, text) # es) seen unique_entries =
     (if num \<notin> seen then dedup_loop es (insert num seen) (unique_entries @ [(num, text)])
      else dedup_loop es seen unique_entries)"

definition unique_entries :: "entry list \<Rightarrow> entry list" where
  "unique_entries all_entries = dedup_loop (sort_key fst all_entries) {} []"

definition format_line :: "nat \<Rightarrow> string \<Rightarrow> string" where
  "format_line num cleaned = str_of num @ ''  '' @ cleaned"

definition cleaned_entries :: "entry list \<Rightarrow> entry list" where
  "cleaned_entries es =
     filter (\<lambda>(num, cleaned). cleaned \<noteq> []) (map (\<lambda>(num, text). (num, clean_text text)) es)"

definition output_lines :: "entry list \<Rightarrow> string list" where
  "output_lines all_entries =
     map (\<lambda>(num, cleaned). format_line num cleaned)
       (cleaned_entries (unique_entries all_entries))"

definition process_files :: "string option list \<Rightarrow> string" where
  "process_files files = join [nl] (output_lines (collect_entries files))"

section \<open>The offset renumbering script\<close>

definition OFFSET :: nat where
  "OFFSET = 612"

definition START_FILE :: nat where
  "START_FILE = 8"

text \<open>\<^verbatim>\<open>re.sub(r'^(\d+)(\s)', add_offset, content, flags=re.MULTILINE)\<close>, on the content
  that \<^verbatim>\<open>f.read()\<close> returned.\<close>

definition re_line_number :: regex where
  "re_line_number = seq [Bol, Group 1 (plus Digit), Group 2 (Chr Space)]"

definition add_offset :: "groups \<Rightarrow> string" where
  "add_offset g = str_of (int_of (grp g 1) + OFFSET) @ grp g 2"

definition add_offset_to_numbers :: "string \<Rightarrow> string" where
  "add_offset_to_numbers content = sub_fn re_line_number add_offset content"

text \<open>\<^verbatim>\<open>main\<close>: the files that the glob found, each a path with its content, visited in
  the sorted order of the paths. A file is rewritten when
  \<^verbatim>\<open>re.search(r'actor_assignments(\d+)\.txt', filepath)\<close> finds a number that is at least
  \<^verbatim>\<open>START_FILE\<close>. The result is the content of every file after the run.\<close>

definition re_file_number :: regex where
  "re_file_number =
     seq [lit ''actor_assignments'', Group 1 (plus Digit), Chr (Lit (CHR ''.'')), lit ''txt'']"

definition selected :: "string \<Rightarrow> bool" where
  "selected filepath =
     (case re_search re_file_number filepath of
        None \<Rightarrow> False
      | Some g \<Rightarrow> int_of (grp g 1) \<ge> START_FILE)"

definition main :: "(string \<times> string) list \<Rightarrow> (string \<times> string) list" where
  "main files =
     map (\<lambda>(filepath, content).
            (filepath, if selected filepath then add_offset_to_numbers content else content))
       (sort_key fst files)"

section \<open>Notions used to state the properties\<close>

text \<open>
  The number an output line starts with, and the lines of the output file (an empty file
  has none; otherwise the lines are what stands between the newlines).
\<close>

definition line_number :: "string \<Rightarrow> nat" where
  "line_number l = int_of (takeWhile is_digit l)"

definition file_lines :: "string \<Rightarrow> string list" where
  "file_lines content = (if content = [] then [] else split_on nl content)"

text \<open>A text has no run of whitespace when no two adjacent characters are both whitespace.\<close>

fun no_ws_run :: "string \<Rightarrow> bool" where
  "no_ws_run (a # b # cs) = (\<not> (is_space a \<and> is_space b) \<and> no_ws_run (b # cs))"
| "no_ws_run cs = True"

text \<open>
  The lines of a content, each with the newline that ends it (the last line has none
  when the content does not end with one). A line is \<open>numbered\<close> when it begins with
  digits immediately followed by a whitespace character, which may be the newline that
  ends it. \<open>renumber_line\<close> follows the words of the specification: add the offset to the
  digits and keep the whitespace character and the rest of the line.
\<close>

fun lines_keepends :: "string \<Rightarrow> string list" where
  "lines_keepends [] = []"
| "lines_keepends (c # cs) =
     (if c = nl then [nl] # lines_keepends cs
      else (case lines_keepends cs of [] \<Rightarrow> [[c]] | l # ls \<Rightarrow> (c # l) # ls))"

definition numbered :: "string \<Rightarrow> bool" where
  "numbered l =
     (takeWhile is_digit l \<noteq> [] \<and>
      (case dropWhile is_digit l of [] \<Rightarrow> False | w # rest \<Rightarrow> is_space w))"

definition renumber_line :: "string \<Rightarrow> string" where
  "renumber_line l =
     (if numbered l then str_of (int_of (takeWhile is_digit l) + OFFSET) @ dropWhile is_digit l
      else l)"

section \<open>Notions used in the proofs\<close>

text \<open>
  \<open>sub_from\<close> is \<^verbatim>\<open>re.sub\<close> resumed in the middle of a text, after the character \<open>p\<close>;
  \<open>collapse_ws\<close> replaces every run of whitespace by one space (\<open>in_run\<close> says that the
  previous character was whitespace); \<open>first_line\<close> and \<open>after_first\<close> split a content
  after its first newline.
\<close>

definition sub_from :: "regex \<Rightarrow> (groups \<Rightarrow> string) \<Rightarrow> char option \<Rightarrow> string \<Rightarrow> string" where
  "sub_from r f p s =
     (case scan r False p s of
        (ms, rest) \<Rightarrow> concat (map (\<lambda>(skip, mt, g). skip @ f g) ms) @ rest)"

fun collapse_ws :: "bool \<Rightarrow> string \<Rightarrow> string" where
  "collapse_ws in_run [] = []"
| "collapse_ws in_run (x # xs) =
     (if is_space x then (if in_run then collapse_ws True xs else CHR '' '' # collapse_ws True xs)
      else x # collapse_ws False xs)"

fun first_line :: "string \<Rightarrow> string" where
  "first_line [] = []"
| "first_line (x # xs) = (if x = nl then [nl] else x # first_line xs)"

fun after_first :: "string \<Rightarrow> string" where
  "after_first [] = []"
| "after_first (x # xs) = (if x = nl then xs else after_first xs)"

text \<open>
  \<open>rule_of c\<close> is the shape of the two section-marker patterns of the cleaner,
  \<^verbatim>\<open>\s*c{5,}\s*\<close>. \<open>runs_ok c k s\<close> says that \<open>s\<close> holds no run of five \<open>c\<close>, not
  even one completed by \<open>k\<close> of them standing just before \<open>s\<close>; \<open>lead c s\<close> counts the
  \<open>c\<close> that \<open>s\<close> begins with.
\<close>

definition rule_of :: "char \<Rightarrow> regex" where
  "rule_of c = seq [Star Space, at_least 5 (Lit c), Star Space]"

fun runs_ok :: "char \<Rightarrow> nat \<Rightarrow> string \<Rightarrow> bool" where
  "runs_ok c k [] = True"
| "runs_ok c k (x # xs) = (if x = c then Suc k < 5 \<and> runs_ok c (Suc k) xs else runs_ok c 0 xs)"

fun lead :: "char \<Rightarrow> string \<Rightarrow> nat" where
  "lead c [] = 0"
| "lead c (x # xs) = (if x = c then Suc (lead c xs) else 0)"

section \<open>Numbers, stripping and splitting\<close>

lemma of_char_digit_chr: "d < 10 \<Longrightarrow> (of_char (digit_chr d) :: nat) = 48 + d"
  by (simp add: digit_chr_def)

lemma is_digit_digit_chr: "d < 10 \<Longrightarrow> is_digit (digit_chr d)"
  by (simp add: is_digit_def less_eq_char_def of_char_digit_chr)

lemma digit_val_digit_chr: "d < 10 \<Longrightarrow> digit_val (digit_chr d) = d"
  by (simp add: digit_val_def of_char_digit_chr)

lemma str_of_digits: "c \<in> set (str_of n) \<Longrightarrow> is_digit c"
proof (induction n rule: str_of.induct)
  case (1 n)
  then show ?case
    by (subst (asm) str_of.simps) (auto simp: is_digit_digit_chr split: if_splits)
qed

lemma str_of_nonempty: "str_of n \<noteq> []"
  by (subst str_of.simps) simp

lemma int_of_snoc: "int_of (s @ [c]) = 10 * int_of s + digit_val c"
  by (simp add: int_of_def)

lemma int_of_str_of: "int_of (str_of n) = n"
proof (induction n rule: str_of.induct)
  case (1 n)
  show ?case
  proof (cases "n < 10")
    case True
    then show ?thesis
      by (subst str_of.simps) (simp add: int_of_def digit_val_digit_chr)
  next
    case False
    then have "int_of (str_of n) = 10 * int_of (str_of (n div 10)) + digit_val (digit_chr (n mod 10))"
      by (subst str_of.simps) (simp add: int_of_snoc)
    then show ?thesis using 1 False by (simp add: digit_val_digit_chr)
  qed
qed

lemma digit_not_space: "is_digit c \<Longrightarrow> \<not> is_space c"
  by (auto simp: is_digit_def is_space_def less_eq_char_def)

lemma space_not_digit: "\<not> is_digit (CHR '' '')"
  by (simp add: is_digit_def less_eq_char_def)

lemma nl_not_digit: "\<not> is_digit nl"
  by (simp add: is_digit_def less_eq_char_def nl_def)

lemma digits_no_nl: "nl \<notin> set (takeWhile is_digit s)"
  using nl_not_digit by (metis set_takeWhileD)

lemma line_number_format: "line_number (format_line n c) = n"
proof -
  have "takeWhile is_digit (str_of n @ CHR '' '' # CHR '' '' # c) = str_of n"
    using str_of_digits space_not_digit by (simp add: takeWhile_tail)
  then show ?thesis by (simp add: line_number_def format_line_def int_of_str_of)
qed

lemma split_on_none: "d \<notin> set a \<Longrightarrow> split_on d a = [a]"
  by (induction a) auto

lemma split_on_append: "d \<notin> set a \<Longrightarrow> split_on d (a @ d # r) = a # split_on d r"
  by (induction a) auto

lemma split_on_join:
  "ls \<noteq> [] \<Longrightarrow> (\<And>l. l \<in> set ls \<Longrightarrow> d \<notin> set l) \<Longrightarrow> split_on d (join [d] ls) = ls"
proof (induction "[d]" ls rule: join.induct)
  case 1
  then show ?case by simp
next
  case (2 x)
  then show ?case by (simp add: split_on_none)
next
  case (3 x y ys)
  then show ?case by (simp add: split_on_append)
qed

lemma join_nonempty: "ls \<noteq> [] \<Longrightarrow> hd ls \<noteq> [] \<Longrightarrow> join sep ls \<noteq> []"
  by (induction sep ls rule: join.induct) auto

lemma strip_decomp: "\<exists>a b. s = a @ strip s @ b"
proof -
  let ?t = "dropWhile is_space s"
  have "rev ?t = takeWhile is_space (rev ?t) @ dropWhile is_space (rev ?t)" by simp
  then have "?t = rev (dropWhile is_space (rev ?t)) @ rev (takeWhile is_space (rev ?t))"
    by (metis rev_append rev_rev_ident)
  then have "s = takeWhile is_space s @ strip s @ rev (takeWhile is_space (rev ?t))"
    unfolding strip_def by (metis takeWhile_dropWhile_id)
  then show ?thesis by blast
qed

lemma strip_set: "set (strip s) \<subseteq> set s"
  using strip_decomp [of s] by (metis Un_iff set_append subsetI)

lemma strip_last: "strip s \<noteq> [] \<Longrightarrow> \<not> is_space (last (strip s))"
  unfolding strip_def by (simp add: last_rev hd_dropWhile)

lemma strip_hd: "strip s \<noteq> [] \<Longrightarrow> \<not> is_space (hd (strip s))"
proof -
  assume ne: "strip s \<noteq> []"
  let ?t = "dropWhile is_space s"
  have "?t = strip s @ rev (takeWhile is_space (rev ?t))"
    unfolding strip_def by (metis rev_append rev_rev_ident takeWhile_dropWhile_id)
  then have "hd ?t = hd (strip s)" using ne by (metis hd_append2)
  moreover have "?t \<noteq> []" using ne unfolding strip_def by (cases "dropWhile is_space s") auto
  ultimately show ?thesis using hd_dropWhile [of is_space s] by simp
qed

lemma strip_id: "s = [] \<or> (\<not> is_space (hd s) \<and> \<not> is_space (last s)) \<Longrightarrow> strip s = s"
proof (cases "s = []")
  case True
  then show ?thesis by (simp add: strip_def)
next
  case False
  assume "s = [] \<or> (\<not> is_space (hd s) \<and> \<not> is_space (last s))"
  then have h: "\<not> is_space (hd s)" "\<not> is_space (last s)" using False by auto
  have "dropWhile is_space s = s" using h(1) by (simp add: dropWhile_eq_self_iff)
  moreover have "dropWhile is_space (rev s) = rev s"
    using h(2) False by (simp add: dropWhile_eq_self_iff hd_rev)
  ultimately show ?thesis by (simp add: strip_def)
qed

lemma no_ws_run_append: "no_ws_run (a @ b) \<Longrightarrow> no_ws_run a \<and> no_ws_run b"
proof (induction a)
  case Nil
  then show ?case by simp
next
  case (Cons x xs)
  then show ?case by (cases xs; cases b) auto
qed

section \<open>Substitution, one position at a time\<close>

lemma sub_fn_sub_from: "sub_fn r f s = sub_from r f None s"
  by (simp add: sub_fn_def sub_from_def)

lemma sub_from_match:
  assumes "rmatch [R r] p s [] = Some (p', s', g)" and "length s' < length s"
  shows "sub_from r f p s = f g @ sub_from r f p' s'"
proof -
  from assms(2) obtain x xs where s: "s = x # xs" by (cases s) auto
  let ?mt = "take (length s - length s') s"
  have mt: "?mt \<noteq> []" using assms(2) s by auto
  have "search r False p s = Some ([], ?mt, p', s', g)"
    using assms(1) unfolding s by simp
  then have "scan r False p s =
      (case scan r False p' s' of (ms, rest) \<Rightarrow> (([], ?mt, g) # ms, rest))"
    using mt by (subst scan.simps) simp
  then show ?thesis
    by (simp add: sub_from_def split: prod.splits)
qed

lemma sub_from_skip:
  assumes "rmatch [R r] p (x # xs) [] = None"
  shows "sub_from r f p (x # xs) = x # sub_from r f (Some x) xs"
proof (cases "search r False (Some x) xs")
  case None
  then have "search r False p (x # xs) = None" using assms by simp
  then have "scan r False p (x # xs) = ([], x # xs)" by (subst scan.simps) simp
  moreover have "scan r False (Some x) xs = ([], xs)" using None by (subst scan.simps) simp
  ultimately show ?thesis by (simp add: sub_from_def)
next
  case (Some res)
  then obtain skip mt p' s' g where res: "search r False (Some x) xs = Some (skip, mt, p', s', g)"
    by (cases res) auto
  then have "search r False p (x # xs) = Some (x # skip, mt, p', s', g)" using assms by simp
  then have "scan r False p (x # xs) =
      (case scan r (mt = []) p' s' of (ms, rest) \<Rightarrow> ((x # skip, mt, g) # ms, rest))"
    by (subst scan.simps) simp
  moreover have "scan r False (Some x) xs =
      (case scan r (mt = []) p' s' of (ms, rest) \<Rightarrow> ((skip, mt, g) # ms, rest))"
    using res by (subst scan.simps) simp
  ultimately show ?thesis by (simp add: sub_from_def split: prod.splits)
qed

lemma sub_from_nil:
  assumes "rmatch [R r] p [] [] = None"
  shows "sub_from r f p [] = []"
proof -
  have "search r False p [] = None" using assms by simp
  then have "scan r False p [] = ([], [])" by (subst scan.simps) simp
  then show ?thesis by (simp add: sub_from_def)
qed

lemma sub_from_no_match_suffix:
  assumes "\<And>p a t. s = a @ t \<Longrightarrow> rmatch [R r] p t [] = None"
  shows "sub_from r f p s = s"
  using assms
proof (induction s arbitrary: p)
  case Nil
  then show ?case by (simp add: sub_from_nil)
next
  case (Cons x xs)
  have "rmatch [R r] p (x # xs) [] = None" using Cons.prems [of "[]"] by simp
  moreover have "sub_from r f (Some x) xs = xs"
  proof (rule Cons.IH)
    fix p a t
    assume "xs = a @ t"
    then have "x # xs = (x # a) @ t" by simp
    then show "rmatch [R r] p t [] = None" by (rule Cons.prems)
  qed
  ultimately show ?case by (simp add: sub_from_skip)
qed

section \<open>Patterns that cannot match\<close>

lemma star_space_elim:
  "rmatch (R (Star Space) # k) p s g = Some res \<Longrightarrow>
     \<exists>a b p'. s = a @ b \<and> rmatch k p' b g = Some res"
proof (induction s arbitrary: p)
  case Nil
  then show ?case by auto
next
  case (Cons x xs)
  show ?case
  proof (cases "is_space x \<and> rmatch (R (Star Space) # k) (Some x) xs g \<noteq> None")
    case True
    then have "rmatch (R (Star Space) # k) (Some x) xs g = Some res"
      using Cons.prems by auto
    then obtain a b p' where "xs = a @ b" "rmatch k p' b g = Some res"
      using Cons.IH by blast
    then have "x # xs = (x # a) @ b" by simp
    then show ?thesis using \<open>rmatch k p' b g = Some res\<close> by blast
  next
    case False
    then have "rmatch k p (x # xs) g = Some res"
      using Cons.prems by (auto split: if_splits option.splits)
    then show ?thesis by (metis append_Nil)
  qed
qed

lemma chr_lit_elim:
  "rmatch (R (Chr (Lit c)) # k) p s g = Some res \<Longrightarrow>
     \<exists>s'. s = c # s' \<and> rmatch k (Some c) s' g = Some res"
  by (cases s) (auto split: if_splits)

lemma seq_chr_elim:
  "rmatch (R (Seq (Chr (Lit c)) r) # k) p s g = Some res \<Longrightarrow>
     \<exists>s'. s = c # s' \<and> rmatch (R r # k) (Some c) s' g = Some res"
  using chr_lit_elim [of c "R r # k" p s g res] by (simp only: rmatch.simps(5))

lemma rule_needs_run:
  assumes "rmatch [R (seq [Star Space, at_least 5 (Lit c), Star Space])] p t [] = Some res"
  shows "\<exists>a b. t = a @ replicate 5 c @ b"
proof -
  let ?r5 = "Seq (Star (Lit c)) Eps"
  let ?r4 = "Seq (Chr (Lit c)) ?r5"
  let ?r3 = "Seq (Chr (Lit c)) ?r4"
  let ?r2 = "Seq (Chr (Lit c)) ?r3"
  let ?r1 = "Seq (Chr (Lit c)) ?r2"
  let ?r0 = "Seq (Chr (Lit c)) ?r1"
  let ?k = "[R (Seq (Star Space) Eps)]"
  have start: "rmatch [R (Star Space), R (Seq ?r0 (Seq (Star Space) Eps))] p t [] = Some res"
    using assms by (simp add: seq_def at_least_def numeral_eq_Suc)
  obtain a b p' where ab: "t = a @ b"
      and 0: "rmatch [R (Seq ?r0 (Seq (Star Space) Eps))] p' b [] = Some res"
    using star_space_elim [OF start] by blast
  from 0 have 0: "rmatch (R ?r0 # ?k) p' b [] = Some res" by (simp only: rmatch.simps(5))
  obtain b1 where b1: "b = c # b1" and 1: "rmatch (R ?r1 # ?k) (Some c) b1 [] = Some res"
    using seq_chr_elim [OF 0] by blast
  obtain b2 where b2: "b1 = c # b2" and 2: "rmatch (R ?r2 # ?k) (Some c) b2 [] = Some res"
    using seq_chr_elim [OF 1] by blast
  obtain b3 where b3: "b2 = c # b3" and 3: "rmatch (R ?r3 # ?k) (Some c) b3 [] = Some res"
    using seq_chr_elim [OF 2] by blast
  obtain b4 where b4: "b3 = c # b4" and 4: "rmatch (R ?r4 # ?k) (Some c) b4 [] = Some res"
    using seq_chr_elim [OF 3] by blast
  obtain b5 where b5: "b4 = c # b5"
    using seq_chr_elim [OF 4] by blast
  have "replicate 5 c = [c, c, c, c, c]" by (simp add: numeral_eq_Suc)
  then have "t = a @ replicate 5 c @ b5"
    unfolding ab b1 b2 b3 b4 b5 by simp
  then show ?thesis by blast
qed

section \<open>The whitespace pass of the cleaner\<close>

lemma star_space_accept: "\<exists>p'. rmatch [R (Star Space)] p s g = Some (p', dropWhile is_space s, g)"
proof (induction s arbitrary: p)
  case Nil
  then show ?case by simp
next
  case (Cons x xs)
  obtain p' where "rmatch [R (Star Space)] (Some x) xs g = Some (p', dropWhile is_space xs, g)"
    using Cons.IH by blast
  then show ?case by simp
qed

lemma rmatch_spaces_hit:
  "is_space x \<Longrightarrow> \<exists>p'. rmatch [R re_spaces] p (x # xs) [] = Some (p', dropWhile is_space xs, [])"
  using star_space_accept [of "Some x" xs "[]"] by (simp add: re_spaces_def plus_def)

lemma rmatch_spaces_miss: "\<not> is_space x \<Longrightarrow> rmatch [R re_spaces] p (x # xs) [] = None"
  by (simp add: re_spaces_def plus_def)

lemma rmatch_spaces_nil: "rmatch [R re_spaces] p [] [] = None"
  by (simp add: re_spaces_def plus_def)

lemma collapse_ws_True: "collapse_ws True s = collapse_ws False (dropWhile is_space s)"
  by (induction s) auto

lemma sub_spaces_collapse: "sub_from re_spaces (\<lambda>g. '' '') p s = collapse_ws False s"
proof (induction s arbitrary: p rule: length_induct)
  case (1 s)
  show ?case
  proof (cases s)
    case Nil
    then show ?thesis by (simp add: sub_from_nil rmatch_spaces_nil)
  next
    case (Cons x xs)
    show ?thesis
    proof (cases "is_space x")
      case True
      obtain p' where m: "rmatch [R re_spaces] p (x # xs) [] = Some (p', dropWhile is_space xs, [])"
        using rmatch_spaces_hit [OF True] by blast
      have len: "length (dropWhile is_space xs) < length (x # xs)"
        using length_dropWhile_le [of is_space xs] by simp
      have "sub_from re_spaces (\<lambda>g. '' '') p (x # xs)
              = '' '' @ sub_from re_spaces (\<lambda>g. '' '') p' (dropWhile is_space xs)"
        using sub_from_match [OF m len] .
      also have "\<dots> = '' '' @ collapse_ws False (dropWhile is_space xs)"
        using 1 len Cons by simp
      finally show ?thesis using True Cons by (simp add: collapse_ws_True)
    next
      case False
      have "sub_from re_spaces (\<lambda>g. '' '') p (x # xs)
              = x # sub_from re_spaces (\<lambda>g. '' '') (Some x) xs"
        using sub_from_skip [OF rmatch_spaces_miss [OF False]] .
      then show ?thesis using 1 False Cons by simp
    qed
  qed
qed

lemma collapse_ws_space: "c \<in> set (collapse_ws b s) \<Longrightarrow> is_space c \<Longrightarrow> c = CHR '' ''"
  by (induction s arbitrary: b) (auto split: if_splits)

lemma collapse_ws_head: "collapse_ws True s = y # ys \<Longrightarrow> \<not> is_space y"
  by (induction s) (auto split: if_splits)

lemma collapse_ws_no_run: "no_ws_run (collapse_ws b s)"
proof (induction s arbitrary: b)
  case Nil
  then show ?case by simp
next
  case (Cons x xs)
  have sp: "is_space (CHR '' '')" by (simp add: is_space_def)
  show ?case
  proof (cases "is_space x")
    case True
    show ?thesis
    proof (cases "collapse_ws True xs")
      case Nil
      then show ?thesis using True by simp
    next
      case (Cons y ys)
      then have "\<not> is_space y" by (rule collapse_ws_head)
      then show ?thesis using True Cons Cons.IH [of True] by simp
    qed
  next
    case False
    then show ?thesis using Cons.IH [of False] by (cases "collapse_ws False xs") auto
  qed
qed

lemma collapse_ws_id:
  "no_ws_run s \<Longrightarrow> (\<forall>c \<in> set s. is_space c \<longrightarrow> c = CHR '' '') \<Longrightarrow>
   (b \<longrightarrow> s = [] \<or> \<not> is_space (hd s)) \<Longrightarrow> collapse_ws b s = s"
proof (induction s arbitrary: b)
  case Nil
  then show ?case by simp
next
  case (Cons x xs)
  have tail: "no_ws_run xs" using Cons.prems(1) by (cases xs) auto
  show ?case
  proof (cases "is_space x")
    case True
    then have "x = CHR '' ''" "\<not> b" using Cons.prems by auto
    moreover have "xs = [] \<or> \<not> is_space (hd xs)"
      using Cons.prems(1) True by (cases xs) auto
    ultimately show ?thesis using True Cons.IH [of True] tail Cons.prems(2) by simp
  next
    case False
    then show ?thesis using Cons.IH [of False] tail Cons.prems(2) by simp
  qed
qed

lemma clean_text_form:
  "clean_text x = strip (collapse_ws False
     (sub re_dash_rule '' ''
       (sub re_eq_rule '' ''
         (fold truncate_at markers
           (sub re_role_start [] (sub re_role_code [] (sub re_character [] x)))))))"
  unfolding clean_text_def
  by (simp add: sub_def [of re_spaces] sub_fn_sub_from sub_spaces_collapse)

lemma clean_text_normal:
  "nl \<notin> set (clean_text x) \<and> no_ws_run (clean_text x) \<and>
   (clean_text x \<noteq> [] \<longrightarrow> \<not> is_space (hd (clean_text x)) \<and> \<not> is_space (last (clean_text x)))"
proof -
  obtain u where u: "clean_text x = strip (collapse_ws False u)"
    using clean_text_form by blast
  obtain a b where d: "collapse_ws False u = a @ strip (collapse_ws False u) @ b"
    using strip_decomp by blast
  have "no_ws_run (collapse_ws False u)" by (rule collapse_ws_no_run)
  then have "no_ws_run (strip (collapse_ws False u))"
    using d no_ws_run_append by metis
  moreover have "nl \<notin> set (strip (collapse_ws False u))"
  proof
    assume "nl \<in> set (strip (collapse_ws False u))"
    then have "nl \<in> set (collapse_ws False u)" using strip_set by blast
    moreover have "is_space nl" by (simp add: is_space_def nl_def)
    ultimately have "nl = CHR '' ''" by (rule collapse_ws_space)
    then show False by (simp add: nl_def)
  qed
  ultimately show ?thesis
    unfolding u using strip_hd strip_last by blast
qed

lemma clean_text_spaces: "c \<in> set (clean_text x) \<Longrightarrow> is_space c \<Longrightarrow> c = CHR '' ''"
proof -
  obtain u where u: "clean_text x = strip (collapse_ws False u)"
    using clean_text_form by blast
  assume "c \<in> set (clean_text x)" "is_space c"
  then have "c \<in> set (collapse_ws False u)" using u strip_set by auto
  then show ?thesis using \<open>is_space c\<close> by (rule collapse_ws_space)
qed

section \<open>The section-marker rules leave no run of five\<close>

lemma runs_ok_mono: "runs_ok c k s \<Longrightarrow> j \<le> k \<Longrightarrow> runs_ok c j s"
proof (induction s arbitrary: k j)
  case Nil
  then show ?case by simp
next
  case (Cons x xs)
  show ?case
  proof (cases "x = c")
    case True
    then have "Suc k < 5" "runs_ok c (Suc k) xs" using Cons.prems(1) by auto
    then have "Suc j < 5" "runs_ok c (Suc j) xs" using Cons.prems(2) Cons.IH [of "Suc k" "Suc j"] by auto
    then show ?thesis using True by simp
  next
    case False
    then show ?thesis using Cons.prems(1) by simp
  qed
qed

lemma runs_ok_suffix: "runs_ok c k (a @ b) \<Longrightarrow> runs_ok c 0 b"
proof (induction a arbitrary: k)
  case Nil
  then show ?case using runs_ok_mono [of c k b 0] by simp
next
  case (Cons x a)
  then show ?case by (cases "x = c") auto
qed

lemma runs_ok_prefix: "runs_ok c k (a @ b) \<Longrightarrow> runs_ok c k a"
proof (induction a arbitrary: k)
  case Nil
  then show ?case by simp
next
  case (Cons x a)
  then show ?case by (cases "x = c") auto
qed

lemma runs_ok_no_run: "\<not> runs_ok c k (a @ replicate 5 c @ b)"
proof
  assume "runs_ok c k (a @ replicate 5 c @ b)"
  then have "runs_ok c 0 (replicate 5 c @ b)" by (rule runs_ok_suffix)
  then show False by (simp add: numeral_eq_Suc)
qed

lemma lead_replicate: "n \<le> lead c s \<Longrightarrow> \<exists>rest. s = replicate n c @ rest"
proof (induction n arbitrary: s)
  case 0
  then show ?case by simp
next
  case (Suc n)
  then obtain x xs where s: "s = x # xs" by (cases s) auto
  with Suc.prems have x: "x = c" and "n \<le> lead c xs" by (auto split: if_splits)
  then obtain rest where "xs = replicate n c @ rest" using Suc.IH by blast
  then show ?case using s x by simp
qed

lemma rmatch_suffix: "rmatch k p s g = Some (p', s', g') \<Longrightarrow> \<exists>a. s = a @ s'"
proof (induction k p s g arbitrary: p' s' g' rule: rmatch.induct)
  case (3 c k p x xs g)
  then obtain a where "xs = a @ s'" by (auto split: if_splits)
  then have "x # xs = (x # a) @ s'" by simp
  then show ?case by blast
next
  case (6 a b k p s g)
  then show ?case by (cases "rmatch (R a # k) p s g") auto
next
  case (8 c k p x xs g)
  show ?case
  proof (cases "in_cls c x \<and> rmatch (R (Star c) # k) (Some x) xs g \<noteq> None")
    case True
    then have "rmatch (R (Star c) # k) (Some x) xs g = Some (p', s', g')"
      using "8.prems" by auto
    then obtain a where "xs = a @ s'" using "8.IH"(1) True by blast
    then have "x # xs = (x # a) @ s'" by simp
    then show ?thesis by blast
  next
    case False
    then have m: "rmatch k p (x # xs) g = Some (p', s', g')"
      using "8.prems" by (auto split: if_splits option.splits)
    show ?thesis
    proof (cases "in_cls c x")
      case True
      then have "rmatch (R (Star c) # k) (Some x) xs g = None" using False by blast
      then show ?thesis using "8.IH"(2) [OF True _ m] by blast
    next
      case False
      then show ?thesis using "8.IH"(3) [OF False m] by blast
    qed
  qed
next
  case (10 c k p x xs g)
  show ?case
  proof (cases "rmatch k p (x # xs) g")
    case (Some res)
    then show ?thesis using "10.prems" "10.IH"(1) by auto
  next
    case None
    then have c: "in_cls c x" and "rmatch (R (LazyStar c) # k) (Some x) xs g = Some (p', s', g')"
      using "10.prems" by (auto split: if_splits)
    then obtain a where "xs = a @ s'" using "10.IH"(2) None by blast
    then have "x # xs = (x # a) @ s'" by simp
    then show ?thesis by blast
  qed
next
  case (13 r k p s g)
  then show ?case by (cases "rmatch [R r] p s g") auto
next
  case (14 c k p s g)
  then show ?case by (cases p) (auto split: if_splits)
qed (auto split: if_splits)

lemma rule_match_shorter:
  assumes "rmatch [R (rule_of c)] p t [] = Some (p', s', g)"
  shows "length s' < length t"
proof -
  let ?r1 = "Seq (Chr (Lit c)) (Seq (Chr (Lit c)) (Seq (Chr (Lit c)) (Seq (Chr (Lit c))
               (Seq (Star (Lit c)) Eps))))"
  let ?k = "[R (Seq (Star Space) Eps)]"
  have start: "rmatch [R (Star Space), R (Seq (Seq (Chr (Lit c)) ?r1) (Seq (Star Space) Eps))] p t []
                 = Some (p', s', g)"
    using assms by (simp add: rule_of_def seq_def at_least_def numeral_eq_Suc)
  obtain a b q where ab: "t = a @ b"
      and 0: "rmatch [R (Seq (Seq (Chr (Lit c)) ?r1) (Seq (Star Space) Eps))] q b [] = Some (p', s', g)"
    using star_space_elim [OF start] by blast
  from 0 have 0: "rmatch (R (Seq (Chr (Lit c)) ?r1) # ?k) q b [] = Some (p', s', g)"
    by (simp only: rmatch.simps(5))
  obtain b1 where b1: "b = c # b1" and 1: "rmatch (R ?r1 # ?k) (Some c) b1 [] = Some (p', s', g)"
    using seq_chr_elim [OF 0] by blast
  have "length s' \<le> length b1" using 1 by (rule rmatch_length)
  then show ?thesis unfolding ab b1 by simp
qed

lemma star_total:
  "(\<And>p s g. rmatch k p s g \<noteq> None) \<Longrightarrow> rmatch (R (Star cl) # k) p s g \<noteq> None"
proof (induction s arbitrary: p)
  case Nil
  then show ?case by simp
next
  case (Cons x xs)
  then show ?case by (auto split: option.splits)
qed

lemma rule_tail_total:
  "rmatch [R (Star (Lit c)), R Eps, R (Seq (Star Space) Eps)] p s g \<noteq> None"
proof (rule star_total)
  fix p s g
  have "rmatch [R (Star Space), R Eps] p s g \<noteq> None"
    by (rule star_total) simp
  then show "rmatch [R Eps, R (Seq (Star Space) Eps)] p s g \<noteq> None" by simp
qed

lemma rule_matches_run:
  assumes "\<not> is_space c"
  shows "rmatch [R (rule_of c)] p (replicate 5 c @ rest) [] \<noteq> None"
  using assms rule_tail_total [of c "Some c" rest "[]"]
  by (simp add: rule_of_def seq_def at_least_def numeral_eq_Suc)

lemma rule_output_runs:
  assumes c: "\<not> is_space c"
  shows "5 \<le> lead c s \<or> k + lead c s < 5 \<Longrightarrow>
           runs_ok c k (sub_from (rule_of c) (\<lambda>g. '' '') p s)"
proof (induction s arbitrary: k p rule: length_induct)
  case (1 s)
  have sp: "CHR '' '' \<noteq> c" using c by (auto simp: is_space_def)
  show ?case
  proof (cases "rmatch [R (rule_of c)] p s []")
    case (Some res)
    obtain p' s' g where res: "res = (p', s', g)" by (cases res)
    have len: "length s' < length s" using Some res rule_match_shorter by blast
    have "sub_from (rule_of c) (\<lambda>g. '' '') p s = '' '' @ sub_from (rule_of c) (\<lambda>g. '' '') p' s'"
      using sub_from_match [OF Some [unfolded res] len] .
    moreover have "5 \<le> lead c s' \<or> 0 + lead c s' < 5" by arith
    then have "runs_ok c 0 (sub_from (rule_of c) (\<lambda>g. '' '') p' s')"
      using 1(1) len by blast
    ultimately show ?thesis using sp by simp
  next
    case None
    show ?thesis
    proof (cases s)
      case Nil
      then show ?thesis using None by (simp add: sub_from_nil)
    next
      case (Cons x xs)
      have out: "sub_from (rule_of c) (\<lambda>g. '' '') p s = x # sub_from (rule_of c) (\<lambda>g. '' '') (Some x) xs"
        using None unfolding Cons by (rule sub_from_skip)
      show ?thesis
      proof (cases "x = c")
        case True
        have "\<not> 5 \<le> lead c s"
        proof
          assume "5 \<le> lead c s"
          then obtain rest where "s = replicate 5 c @ rest" using lead_replicate by blast
          then show False using None rule_matches_run [OF c] by simp
        qed
        then have k: "k + lead c s < 5" using 1(2) by simp
        have l: "lead c s = Suc (lead c xs)" using True Cons by simp
        have "5 \<le> lead c xs \<or> Suc k + lead c xs < 5" using k l by arith
        moreover have "length xs < length s" using Cons by simp
        ultimately have "runs_ok c (Suc k) (sub_from (rule_of c) (\<lambda>g. '' '') (Some x) xs)"
          using 1(1) by blast
        then show ?thesis using out True k l by simp
      next
        case False
        have "5 \<le> lead c xs \<or> 0 + lead c xs < 5" by arith
        moreover have "length xs < length s" using Cons by simp
        ultimately have "runs_ok c 0 (sub_from (rule_of c) (\<lambda>g. '' '') (Some x) xs)"
          using 1(1) by blast
        then show ?thesis using out False by simp
      qed
    qed
  qed
qed

lemma rule_keeps_runs:
  assumes d: "\<not> is_space d"
  shows "runs_ok d k s \<Longrightarrow> runs_ok d k (sub_from (rule_of c) (\<lambda>g. '' '') p s)"
proof (induction s arbitrary: k p rule: length_induct)
  case (1 s)
  have sp: "CHR '' '' \<noteq> d" using d by (auto simp: is_space_def)
  show ?case
  proof (cases "rmatch [R (rule_of c)] p s []")
    case (Some res)
    obtain p' s' g where res: "res = (p', s', g)" by (cases res)
    have len: "length s' < length s" using Some res rule_match_shorter by blast
    obtain a where "s = a @ s'" using Some res rmatch_suffix by blast
    then have "runs_ok d 0 s'" using 1(2) runs_ok_suffix by blast
    then have "runs_ok d 0 (sub_from (rule_of c) (\<lambda>g. '' '') p' s')"
      using 1(1) len by simp
    moreover have "sub_from (rule_of c) (\<lambda>g. '' '') p s = '' '' @ sub_from (rule_of c) (\<lambda>g. '' '') p' s'"
      using sub_from_match [OF Some [unfolded res] len] .
    ultimately show ?thesis using sp by simp
  next
    case None
    show ?thesis
    proof (cases s)
      case Nil
      then show ?thesis using None by (simp add: sub_from_nil)
    next
      case (Cons x xs)
      have out: "sub_from (rule_of c) (\<lambda>g. '' '') p s = x # sub_from (rule_of c) (\<lambda>g. '' '') (Some x) xs"
        using None unfolding Cons by (rule sub_from_skip)
      show ?thesis
      proof (cases "x = d")
        case True
        then have "Suc k < 5" "runs_ok d (Suc k) xs" using 1(2) Cons by auto
        then show ?thesis using out True 1(1) Cons by simp
      next
        case False
        then have "runs_ok d 0 xs" using 1(2) Cons by auto
        then show ?thesis using out False 1(1) Cons by simp
      qed
    qed
  qed
qed

lemma collapse_keeps_runs:
  assumes d: "\<not> is_space d"
  shows "(b \<longrightarrow> k = 0) \<Longrightarrow> runs_ok d k s \<Longrightarrow> runs_ok d k (collapse_ws b s)"
proof (induction s arbitrary: b k)
  case Nil
  then show ?case by simp
next
  case (Cons x xs)
  have sp: "CHR '' '' \<noteq> d" using d by (auto simp: is_space_def)
  show ?case
  proof (cases "is_space x")
    case True
    then have xd: "x \<noteq> d" using d by auto
    then have "runs_ok d 0 xs" using Cons.prems(2) by simp
    then have "runs_ok d 0 (collapse_ws True xs)" using Cons.IH [of True 0] by simp
    then show ?thesis using True sp Cons.prems(1) by auto
  next
    case False
    show ?thesis
    proof (cases "x = d")
      case True
      then have "Suc k < 5" "runs_ok d (Suc k) xs" using Cons.prems(2) by auto
      then show ?thesis using False True Cons.IH [of False "Suc k"] by simp
    next
      case xd: False
      then have "runs_ok d 0 xs" using Cons.prems(2) by simp
      then show ?thesis using False xd Cons.IH [of False 0] by simp
    qed
  qed
qed

lemma strip_keeps_runs: "runs_ok d 0 s \<Longrightarrow> runs_ok d 0 (strip s)"
proof -
  assume a: "runs_ok d 0 s"
  obtain u v where "s = u @ strip s @ v" using strip_decomp by blast
  then have "runs_ok d 0 (u @ strip s @ v)" using a by simp
  then have "runs_ok d 0 (strip s @ v)" by (rule runs_ok_suffix)
  then show ?thesis by (rule runs_ok_prefix)
qed

lemma rule_defs: "re_eq_rule = rule_of (CHR ''='')" "re_dash_rule = rule_of (CHR ''-'')"
  by (simp_all add: re_eq_rule_def re_dash_rule_def rule_of_def)

lemma sub_rule_output_runs: "\<not> is_space c \<Longrightarrow> runs_ok c 0 (sub (rule_of c) '' '' s)"
proof -
  assume c: "\<not> is_space c"
  have "5 \<le> lead c s \<or> 0 + lead c s < 5" by arith
  then have "runs_ok c 0 (sub_from (rule_of c) (\<lambda>g. '' '') None s)"
    by (rule rule_output_runs [OF c])
  then show ?thesis by (simp only: sub_def sub_fn_sub_from)
qed

lemma sub_rule_keeps_runs:
  "\<not> is_space d \<Longrightarrow> runs_ok d 0 s \<Longrightarrow> runs_ok d 0 (sub (rule_of c) '' '' s)"
proof -
  assume d: "\<not> is_space d" and s: "runs_ok d 0 s"
  have "runs_ok d 0 (sub_from (rule_of c) (\<lambda>g. '' '') None s)"
    using s by (rule rule_keeps_runs [OF d])
  then show ?thesis by (simp only: sub_def sub_fn_sub_from)
qed

lemma clean_text_runs:
  "runs_ok (CHR ''='') 0 (clean_text x) \<and> runs_ok (CHR ''-'') 0 (clean_text x)"
proof -
  obtain u where u: "clean_text x =
      strip (collapse_ws False (sub (rule_of (CHR ''-'')) '' '' (sub (rule_of (CHR ''='')) '' '' u)))"
    using clean_text_form [of x] unfolding rule_defs by blast
  have e: "\<not> is_space (CHR ''='')" and m: "\<not> is_space (CHR ''-'')"
    by (simp_all add: is_space_def)
  let ?v = "sub (rule_of (CHR ''='')) '' '' u"
  let ?w = "sub (rule_of (CHR ''-'')) '' '' ?v"
  have "runs_ok (CHR ''='') 0 ?v" using e by (rule sub_rule_output_runs)
  then have "runs_ok (CHR ''='') 0 ?w" by (rule sub_rule_keeps_runs [OF e])
  then have 1: "runs_ok (CHR ''='') 0 (collapse_ws False ?w)"
    using collapse_keeps_runs [OF e, of False 0] by simp
  have "runs_ok (CHR ''-'') 0 ?w" using m by (rule sub_rule_output_runs)
  then have 2: "runs_ok (CHR ''-'') 0 (collapse_ws False ?w)"
    using collapse_keeps_runs [OF m, of False 0] by simp
  show ?thesis unfolding u using 1 2 strip_keeps_runs by blast
qed

lemma sub_rule_idle:
  assumes "runs_ok c 0 s"
  shows "sub (rule_of c) repl s = s"
proof -
  have "rmatch [R (rule_of c)] p t [] = None" if "s = a @ t" for p a t
  proof (cases "rmatch [R (rule_of c)] p t []")
    case None
    then show ?thesis .
  next
    case (Some res)
    then obtain a' b where "t = a' @ replicate 5 c @ b"
      using rule_needs_run unfolding rule_of_def by blast
    then have "s = (a @ a') @ replicate 5 c @ b" using that by simp
    then show ?thesis using assms runs_ok_no_run by metis
  qed
  then show ?thesis
    unfolding sub_def sub_fn_sub_from by (rule sub_from_no_match_suffix)
qed

lemma sub_search_idle: "re_search r s = None \<Longrightarrow> sub r repl s = s"
proof -
  assume "re_search r s = None"
  then have "search r False None s = None" by (simp add: re_search_def)
  then have "scan r False None s = ([], s)" by (subst scan.simps) simp
  then show ?thesis by (simp add: sub_def sub_fn_def)
qed

section \<open>No rule of the cleaner lengthens a text\<close>

lemma sub_from_length:
  assumes ne: "\<And>p t p' s' g. rmatch [R r] p t [] = Some (p', s', g) \<Longrightarrow> length s' < length t"
    and f: "\<And>g. length (f g) \<le> 1"
  shows "length (sub_from r f p s) \<le> length s"
proof (induction s arbitrary: p rule: length_induct)
  case (1 s)
  show ?case
  proof (cases "rmatch [R r] p s []")
    case (Some res)
    obtain p' s' g where res: "res = (p', s', g)" by (cases res)
    have len: "length s' < length s" using Some res ne by blast
    have "sub_from r f p s = f g @ sub_from r f p' s'"
      using sub_from_match [OF Some [unfolded res] len] .
    moreover have "length (sub_from r f p' s') \<le> length s'" using 1 len by blast
    ultimately show ?thesis using f [of g] len by simp
  next
    case None
    show ?thesis
    proof (cases s)
      case Nil
      then show ?thesis using None by (simp add: sub_from_nil)
    next
      case (Cons x xs)
      have "sub_from r f p s = x # sub_from r f (Some x) xs"
        using None unfolding Cons by (rule sub_from_skip)
      moreover have "length (sub_from r f (Some x) xs) \<le> length xs" using 1 Cons by simp
      ultimately show ?thesis using Cons by simp
    qed
  qed
qed

lemma sub_from_shorter:
  assumes ne: "\<And>p t p' s' g. rmatch [R r] p t [] = Some (p', s', g) \<Longrightarrow> length s' < length t"
  shows "search r False p s \<noteq> None \<Longrightarrow> length (sub_from r (\<lambda>g. []) p s) < length s"
proof (induction s arbitrary: p)
  case Nil
  then obtain res where "rmatch [R r] p [] [] = Some res"
    by (cases "rmatch [R r] p [] []") auto
  then show ?case using ne [of p "[]"] by (cases res) auto
next
  case (Cons x xs)
  show ?case
  proof (cases "rmatch [R r] p (x # xs) []")
    case (Some res)
    obtain p' s' g where res: "res = (p', s', g)" by (cases res)
    have len: "length s' < length (x # xs)" using Some res ne by blast
    have "sub_from r (\<lambda>g. []) p (x # xs) = [] @ sub_from r (\<lambda>g. []) p' s'"
      using sub_from_match [OF Some [unfolded res] len] .
    moreover have "length (sub_from r (\<lambda>g. []) p' s') \<le> length s'"
      using ne by (intro sub_from_length) auto
    ultimately show ?thesis using len by simp
  next
    case None
    then have "search r False (Some x) xs \<noteq> None"
      using Cons.prems by (auto split: option.splits)
    then have "length (sub_from r (\<lambda>g. []) (Some x) xs) < length xs" by (rule Cons.IH)
    moreover have "sub_from r (\<lambda>g. []) p (x # xs) = x # sub_from r (\<lambda>g. []) (Some x) xs"
      using None by (rule sub_from_skip)
    ultimately show ?thesis by simp
  qed
qed

lemma chr_elim:
  "rmatch (R (Chr cl) # k) p s g = Some res \<Longrightarrow>
     \<exists>x s1. s = x # s1 \<and> rmatch k (Some x) s1 g = Some res"
  by (cases s) (auto split: if_splits)

lemma chr_shorter:
  assumes "rmatch (R (Chr cl) # k) p s g = Some (p', s', g')"
  shows "length s' < length s"
proof -
  obtain x s1 where s: "s = x # s1" and "rmatch k (Some x) s1 g = Some (p', s', g')"
    using chr_elim [OF assms] by blast
  then have "length s' \<le> length s1" using rmatch_length by blast
  then show ?thesis using s by simp
qed

lemma character_shorter:
  "rmatch [R re_character] p t [] = Some (p', s', g) \<Longrightarrow> length s' < length t"
  apply (simp add: re_character_def seq_def lit_def)
  apply (erule chr_shorter)
  done

lemma role_code_shorter:
  "rmatch [R re_role_code] p t [] = Some (p', s', g) \<Longrightarrow> length s' < length t"
  apply (simp add: re_role_code_def seq_def)
  apply (erule chr_shorter)
  done

lemma role_start_shorter:
  "rmatch [R re_role_start] p t [] = Some (p', s', g) \<Longrightarrow> length s' < length t"
  apply (simp add: re_role_start_def seq_def split: if_splits)
  apply (erule chr_shorter)
  done

lemma find_from_bound:
  "find_from i pat s = Some j \<Longrightarrow> pat \<noteq> [] \<Longrightarrow> j < i + length s"
proof (induction s arbitrary: i)
  case Nil
  then show ?case by simp
next
  case (Cons c cs)
  show ?case
  proof (cases "startswith (c # cs) pat")
    case True
    then show ?thesis using Cons.prems by simp
  next
    case False
    then have "find_from (Suc i) pat cs = Some j" using Cons.prems by simp
    then have "j < Suc i + length cs" using Cons.prems(2) by (rule Cons.IH)
    then show ?thesis by simp
  qed
qed

lemma truncate_at_length: "length (truncate_at m s) \<le> length s"
  by (simp add: truncate_at_def split: option.splits)

lemma truncate_at_shorter:
  "m \<noteq> [] \<Longrightarrow> find_str s m \<noteq> None \<Longrightarrow> length (truncate_at m s) < length s"
  using find_from_bound [of 0 m s]
  by (auto simp: truncate_at_def find_str_def split: option.splits)

lemma truncate_at_idle: "find_str s m = None \<Longrightarrow> truncate_at m s = s"
  by (simp add: truncate_at_def)

lemma fold_truncate_length: "length (fold truncate_at ms s) \<le> length s"
proof (induction ms arbitrary: s)
  case Nil
  then show ?case by simp
next
  case (Cons m ms)
  have "length (fold truncate_at ms (truncate_at m s)) \<le> length (truncate_at m s)"
    by (rule Cons.IH)
  then show ?case using truncate_at_length [of m s] by simp
qed

lemma fold_truncate_shorter:
  "\<forall>m \<in> set ms. m \<noteq> [] \<Longrightarrow> \<exists>m \<in> set ms. find_str s m \<noteq> None \<Longrightarrow>
     length (fold truncate_at ms s) < length s"
proof (induction ms arbitrary: s)
  case Nil
  then show ?case by simp
next
  case (Cons m ms)
  show ?case
  proof (cases "find_str s m")
    case (Some i)
    then have "length (truncate_at m s) < length s"
      using Cons.prems(1) by (intro truncate_at_shorter) auto
    then show ?thesis using fold_truncate_length [of ms "truncate_at m s"] by simp
  next
    case None
    then have "\<exists>m \<in> set ms. find_str s m \<noteq> None" using Cons.prems(2) by auto
    moreover have "\<forall>m \<in> set ms. m \<noteq> []" using Cons.prems(1) by simp
    ultimately have "length (fold truncate_at ms s) < length s" using Cons.IH by blast
    then show ?thesis using None by (simp add: truncate_at_idle)
  qed
qed

lemma markers_nonempty: "\<forall>m \<in> set markers. m \<noteq> []"
  by (simp add: markers_def)

lemma collapse_ws_length: "length (collapse_ws b s) \<le> length s"
  by (induction s arbitrary: b) (auto simp: le_SucI)

lemma strip_length: "length (strip s) \<le> length s"
proof -
  obtain u v where "s = u @ strip s @ v" using strip_decomp by blast
  then have "length s = length u + length (strip s) + length v"
    by (metis length_append add.assoc)
  then show ?thesis by simp
qed

lemma sub_label_length:
  assumes "\<And>p t p' s' g. rmatch [R r] p t [] = Some (p', s', g) \<Longrightarrow> length s' < length t"
  shows "length (sub r [] s) \<le> length s"
    and "re_search r s \<noteq> None \<Longrightarrow> length (sub r [] s) < length s"
proof -
  show "length (sub r [] s) \<le> length s"
    unfolding sub_def sub_fn_sub_from using assms by (intro sub_from_length) auto
  assume "re_search r s \<noteq> None"
  then have "search r False None s \<noteq> None" by (simp add: re_search_def)
  then show "length (sub r [] s) < length s"
    unfolding sub_def sub_fn_sub_from using assms by (intro sub_from_shorter) auto
qed

lemma sub_rule_length: "length (sub (rule_of c) '' '' s) \<le> length s"
  unfolding sub_def sub_fn_sub_from
  using rule_match_shorter by (intro sub_from_length) auto

lemma clean_text_length:
  "length (clean_text y) \<le>
     length (fold truncate_at markers
       (sub re_role_start [] (sub re_role_code [] (sub re_character [] y))))"
proof -
  let ?t = "fold truncate_at markers
       (sub re_role_start [] (sub re_role_code [] (sub re_character [] y)))"
  have "clean_text y = strip (collapse_ws False
      (sub (rule_of (CHR ''-'')) '' '' (sub (rule_of (CHR ''='')) '' '' ?t)))"
    using clean_text_form [of y] unfolding rule_defs .
  moreover have "length (sub (rule_of (CHR ''-'')) '' '' (sub (rule_of (CHR ''='')) '' '' ?t))
      \<le> length ?t"
    using sub_rule_length [of "CHR ''-''" "sub (rule_of (CHR ''='')) '' '' ?t"]
          sub_rule_length [of "CHR ''=''" ?t] by simp
  ultimately show ?thesis
    using strip_length [of "collapse_ws False
      (sub (rule_of (CHR ''-'')) '' '' (sub (rule_of (CHR ''='')) '' '' ?t))"]
      collapse_ws_length [of False
      "sub (rule_of (CHR ''-'')) '' '' (sub (rule_of (CHR ''='')) '' '' ?t)"]
    by simp
qed

lemma clean_text_fixed_rules_idle:
  assumes fp: "clean_text y = y"
  shows "re_search re_character y = None \<and> re_search re_role_code y = None \<and>
         re_search re_role_start y = None \<and> (\<forall>m \<in> set markers. find_str y m = None)"
proof -
  let ?a = "sub re_character [] y"
  let ?b = "sub re_role_code [] ?a"
  let ?c = "sub re_role_start [] ?b"
  let ?d = "fold truncate_at markers ?c"
  have l0: "length y \<le> length ?d" using clean_text_length [of y] fp by simp
  have ld: "length ?d \<le> length ?c" by (rule fold_truncate_length)
  have lc: "length ?c \<le> length ?b" using role_start_shorter by (intro sub_label_length(1)) auto
  have lb: "length ?b \<le> length ?a" using role_code_shorter by (intro sub_label_length(1)) auto
  have la: "length ?a \<le> length y" using character_shorter by (intro sub_label_length(1)) auto
  have 1: "re_search re_character y = None"
  proof (rule ccontr)
    assume "re_search re_character y \<noteq> None"
    then have "length ?a < length y"
      using character_shorter by (intro sub_label_length(2)) auto
    then show False using l0 ld lc lb by simp
  qed
  then have a: "?a = y" by (rule sub_search_idle)
  have 2: "re_search re_role_code y = None"
  proof (rule ccontr)
    assume "re_search re_role_code y \<noteq> None"
    then have "length (sub re_role_code [] y) < length y"
      using role_code_shorter by (intro sub_label_length(2)) auto
    then show False using l0 ld lc unfolding a by simp
  qed
  then have b: "sub re_role_code [] y = y" by (rule sub_search_idle)
  have 3: "re_search re_role_start y = None"
  proof (rule ccontr)
    assume "re_search re_role_start y \<noteq> None"
    then have "length (sub re_role_start [] y) < length y"
      using role_start_shorter by (intro sub_label_length(2)) auto
    then show False using l0 ld unfolding a b by simp
  qed
  then have c: "sub re_role_start [] y = y" by (rule sub_search_idle)
  have 4: "\<forall>m \<in> set markers. find_str y m = None"
  proof (rule ccontr)
    assume "\<not> (\<forall>m \<in> set markers. find_str y m = None)"
    then have "\<exists>m \<in> set markers. find_str y m \<noteq> None" by blast
    then have "length (fold truncate_at markers y) < length y"
      using markers_nonempty by (intro fold_truncate_shorter)
    then show False using l0 unfolding a b c by simp
  qed
  show ?thesis using 1 2 3 4 by blast
qed

lemma clean_text_rules_idle_fixed:
  assumes "re_search re_character (clean_text x) = None"
    and "re_search re_role_code (clean_text x) = None"
    and "re_search re_role_start (clean_text x) = None"
    and "\<forall>m \<in> set markers. find_str (clean_text x) m = None"
  shows "clean_text (clean_text x) = clean_text x"
proof -
  let ?y = "clean_text x"
  have s1: "sub re_character [] ?y = ?y" using assms(1) by (rule sub_search_idle)
  have s2: "sub re_role_code [] ?y = ?y" using assms(2) by (rule sub_search_idle)
  have s3: "sub re_role_start [] ?y = ?y" using assms(3) by (rule sub_search_idle)
  have s4: "fold truncate_at markers ?y = ?y"
    using assms(4) by (simp add: markers_def truncate_at_def)
  have s5: "sub re_eq_rule '' '' ?y = ?y"
    unfolding rule_defs using clean_text_runs [of x] by (intro sub_rule_idle) simp
  have s6: "sub re_dash_rule '' '' ?y = ?y"
    unfolding rule_defs using clean_text_runs [of x] by (intro sub_rule_idle) simp
  have n: "no_ws_run ?y" "?y = [] \<or> (\<not> is_space (hd ?y) \<and> \<not> is_space (last ?y))"
    using clean_text_normal [of x] by auto
  have s7: "collapse_ws False ?y = ?y"
    using n(1) clean_text_spaces [of _ x] by (intro collapse_ws_id) auto
  have s8: "strip ?y = ?y" using n(2) by (rule strip_id)
  show ?thesis
    by (subst clean_text_form) (simp only: s1 s2 s3 s4 s5 s6 s7 s8)
qed

section \<open>Sorting and deduplication\<close>

lemma dedup_loop_acc: "dedup_loop es seen acc = acc @ dedup_loop es seen []"
proof (induction es arbitrary: seen acc)
  case Nil
  then show ?case by simp
next
  case (Cons e es)
  obtain num t where e: "e = (num, t)" by (cases e)
  show ?case
    using Cons.IH [of "insert num seen" "acc @ [(num, t)]"]
          Cons.IH [of "insert num seen" "[(num, t)]"] Cons.IH [of seen acc]
    by (simp add: e)
qed

lemma dedup_loop_Cons:
  "dedup_loop ((num, text) # es) seen [] =
     (if num \<in> seen then dedup_loop es seen [] else (num, text) # dedup_loop es (insert num seen) [])"
  using dedup_loop_acc [of es "insert num seen" "[(num, text)]"] by simp

lemma dedup_loop_filter:
  "filter (\<lambda>e. fst e = n) (dedup_loop es seen []) =
     (if n \<in> seen then [] else take 1 (filter (\<lambda>e. fst e = n) es))"
proof (induction es arbitrary: seen)
  case Nil
  then show ?case by simp
next
  case (Cons e es)
  obtain num t where e: "e = (num, t)" by (cases e)
  show ?case
    unfolding e dedup_loop_Cons
    by (simp add: Cons.IH)
qed

lemma dedup_loop_keys: "fst ` set (dedup_loop es seen []) = fst ` set es - seen"
proof (induction es arbitrary: seen)
  case Nil
  then show ?case by simp
next
  case (Cons e es)
  obtain num t where e: "e = (num, t)" by (cases e)
  show ?case
    unfolding e dedup_loop_Cons
    by (auto simp: Cons.IH)
qed

lemma dedup_loop_distinct: "distinct (map fst (dedup_loop es seen []))"
proof (induction es arbitrary: seen)
  case Nil
  then show ?case by simp
next
  case (Cons e es)
  obtain num t where e: "e = (num, t)" by (cases e)
  show ?case
    unfolding e dedup_loop_Cons
    using dedup_loop_keys [of es "insert num seen"]
    by (auto simp: Cons.IH)
qed

lemma dedup_loop_sorted:
  "sorted (map fst es) \<Longrightarrow> sorted (map fst (dedup_loop es seen []))"
proof (induction es arbitrary: seen)
  case Nil
  then show ?case by simp
next
  case (Cons e es)
  obtain num t where e: "e = (num, t)" by (cases e)
  have s: "sorted (map fst es)" and le: "\<forall>k \<in> fst ` set es. num \<le> k"
    using Cons.prems by (auto simp: e)
  have "\<forall>k \<in> fst ` set (dedup_loop es (insert num seen) []). num \<le> k"
    using le dedup_loop_keys [of es "insert num seen"] by auto
  then show ?case
    unfolding e dedup_loop_Cons
    using Cons.IH [OF s] by auto
qed

lemma unique_entries_strict: "sorted_wrt (<) (map fst (unique_entries es))"
  unfolding unique_entries_def strict_sorted_iff
  using dedup_loop_sorted [of "sort_key fst es" "{}"] dedup_loop_distinct
  by simp

lemma unique_entries_filter:
  "filter (\<lambda>e. fst e = n) (unique_entries es) = take 1 (filter (\<lambda>e. fst e = n) es)"
  unfolding unique_entries_def dedup_loop_filter
  by (simp add: sort_key_stable)

lemma cleaned_entries_strict: "sorted_wrt (<) (map fst (cleaned_entries (unique_entries es)))"
proof -
  let ?m = "map (\<lambda>(num, text). (num, clean_text text)) (unique_entries es)"
  have "map fst (map (\<lambda>(num, text). (num, clean_text text)) u) = map fst u" for u :: "entry list"
    by (induction u) auto
  then have "sorted_wrt (<) (map fst ?m)"
    using unique_entries_strict [of es] by (simp only:)
  then have "sorted_wrt (\<lambda>x y. fst x < fst y) ?m"
    by (simp only: sorted_wrt_map)
  then have "sorted_wrt (\<lambda>x y. fst x < fst y) (filter (\<lambda>(num, cleaned). cleaned \<noteq> []) ?m)"
    by (rule sorted_wrt_filter)
  then show ?thesis
    by (simp only: cleaned_entries_def sorted_wrt_map)
qed

lemma find_take_filter: "find P xs = Some e \<Longrightarrow> take 1 (filter P xs) = [e]"
  by (induction xs) (auto split: if_splits)

lemma fallback_fold:
  "\<exists>added. foldl fallback_step es gs = es @ added \<and> distinct (map fst added) \<and>
     set (map fst added) \<inter> set (map fst es) = {}"
proof (induction gs arbitrary: es)
  case Nil
  then show ?case by simp
next
  case (Cons g gs)
  show ?case
  proof (cases "int_of (grp g 1) \<in> set (map fst es)")
    case True
    then show ?thesis using Cons.IH [of es] by (simp add: fallback_step_def)
  next
    case False
    obtain added where a: "foldl fallback_step (es @ [monologue_entry g]) gs = (es @ [monologue_entry g]) @ added"
      "distinct (map fst added)" "set (map fst added) \<inter> set (map fst (es @ [monologue_entry g])) = {}"
      using Cons.IH [of "es @ [monologue_entry g]"] by blast
    have "fst (monologue_entry g) = int_of (grp g 1)" by (simp add: monologue_entry_def)
    moreover have "fallback_step es g = es @ [monologue_entry g]"
      using False by (simp add: fallback_step_def)
    ultimately show ?thesis
      using a False by (intro exI [of _ "monologue_entry g # added"]) auto
  qed
qed

section \<open>The output lines\<close>

lemma output_lines_char:
  "l \<in> set (output_lines es) \<Longrightarrow>
     \<exists>n t. l = format_line n (clean_text t) \<and> (n, t) \<in> set (unique_entries es) \<and> clean_text t \<noteq> []"
  by (auto simp: output_lines_def cleaned_entries_def)

lemma format_line_no_nl: "nl \<notin> set (format_line n (clean_text t))"
  using clean_text_normal [of t] str_of_digits [of nl n] nl_not_digit
  by (auto simp: format_line_def nl_def)

lemma file_lines_output: "file_lines (join [nl] (output_lines es)) = output_lines es"
proof (cases "output_lines es = []")
  case True
  then show ?thesis by (simp add: file_lines_def)
next
  case False
  have nonl: "\<And>l. l \<in> set (output_lines es) \<Longrightarrow> nl \<notin> set l"
    using output_lines_char format_line_no_nl by blast
  have "hd (output_lines es) \<in> set (output_lines es)" using False by simp
  then have "hd (output_lines es) \<noteq> []"
    using output_lines_char [of "hd (output_lines es)" es] str_of_nonempty
    by (auto simp: format_line_def)
  then have ne: "join [nl] (output_lines es) \<noteq> []"
    using False join_nonempty by blast
  have "split_on nl (join [nl] (output_lines es)) = output_lines es"
    using False nonl by (rule split_on_join)
  then show ?thesis
    using ne by (simp only: file_lines_def if_False)
qed

lemma map_line_number_format:
  "map line_number (map (\<lambda>(num, cleaned). format_line num cleaned) xs) = map fst xs"
  by (induction xs) (auto simp: line_number_format)

lemma output_numbers:
  "map line_number (output_lines es) = map fst (cleaned_entries (unique_entries es))"
  unfolding output_lines_def by (rule map_line_number_format)

lemma output_lines_sorted: "sorted_wrt (<) (map line_number (output_lines es))"
  unfolding output_numbers by (rule cleaned_entries_strict)

section \<open>The renumbering substitution, line by line\<close>

lemma lines_keepends_unfold:
  "s \<noteq> [] \<Longrightarrow> lines_keepends s = first_line s # lines_keepends (after_first s)"
proof (induction s)
  case Nil
  then show ?case by simp
next
  case (Cons c cs)
  then show ?case by (cases "cs = []") auto
qed

lemma after_first_length: "length (after_first s) \<le> length s"
  by (induction s) auto

lemma first_line_append: "nl \<notin> set a \<Longrightarrow> first_line (a @ b) = a @ first_line b"
  by (induction a) auto

lemma after_first_append: "nl \<notin> set a \<Longrightarrow> after_first (a @ b) = after_first b"
  by (induction a) auto

lemma star_digit_then_space:
  "rmatch [R (Star Digit), EndGroup i s0, R (Seq (Group j (Chr Space)) Eps)] p s g =
     (case dropWhile is_digit s of
        [] \<Rightarrow> None
      | w # r \<Rightarrow>
          if is_space w
          then Some (Some w, r, (j, [w]) # (i, take (length s0 - length (w # r)) s0) # g)
          else None)"
proof (induction s arbitrary: p)
  case Nil
  then show ?case by simp
next
  case (Cons x xs)
  show ?case
  proof (cases "is_digit x")
    case True
    then have "\<not> is_space x" by (rule digit_not_space)
    then show ?thesis using True Cons.IH [of "Some x"]
      by (simp split: list.splits option.splits)
  next
    case False
    then show ?thesis by simp
  qed
qed

lemma rmatch_line_number:
  "rmatch [R re_line_number] p s [] =
     (if (p = None \<or> p = Some nl) \<and> numbered s
      then Some (Some (hd (dropWhile is_digit s)), tl (dropWhile is_digit s),
                 [(2, [hd (dropWhile is_digit s)]), (1, takeWhile is_digit s)])
      else None)"
proof (cases s)
  case Nil
  then show ?thesis by (simp add: re_line_number_def seq_def plus_def numbered_def)
next
  case (Cons x xs)
  show ?thesis
  proof (cases "is_digit x")
    case False
    then show ?thesis using Cons by (simp add: re_line_number_def seq_def plus_def numbered_def)
  next
    case True
    have unfold: "rmatch [R re_line_number] p s [] =
        (if p = None \<or> p = Some nl
         then rmatch [R (Star Digit), EndGroup 1 s, R (Seq (Group 2 (Chr Space)) Eps)] (Some x) xs []
         else None)"
      using True Cons by (simp add: re_line_number_def seq_def plus_def)
    show ?thesis
    proof (cases "dropWhile is_digit xs")
      case Nil
      then have "\<not> numbered s"
        using True Cons by (simp add: numbered_def del: dropWhile_eq_Nil_conv)
      then show ?thesis
        unfolding unfold star_digit_then_space using Nil
        by (simp del: dropWhile_eq_Nil_conv)
    next
      case (Cons w r)
      have "s = (x # takeWhile is_digit xs) @ (w # r)"
        using Cons \<open>s = x # xs\<close> by (metis append_Cons takeWhile_dropWhile_id)
      then have tk: "take (length s - length (w # r)) s = x # takeWhile is_digit xs"
        by (metis append_eq_conv_conj diff_add_inverse2 length_append)
      have nb: "numbered s = is_space w"
        using True Cons \<open>s = x # xs\<close> by (simp add: numbered_def)
      show ?thesis
        unfolding unfold star_digit_then_space
        using Cons True \<open>s = x # xs\<close> tk nb by simp
    qed
  qed
qed

lemma add_offset_groups:
  "add_offset [(2, [w]), (Suc 0, ds)] = str_of (int_of ds + OFFSET) @ [w]"
  by (simp add: add_offset_def grp_def)

lemma sub_mid_line:
  "y \<noteq> nl \<Longrightarrow>
     sub_from re_line_number add_offset (Some y) s =
       first_line s @ sub_from re_line_number add_offset (Some nl) (after_first s)"
proof (induction s arbitrary: y)
  case Nil
  then show ?case by (simp add: sub_from_nil rmatch_line_number numbered_def)
next
  case (Cons x xs)
  have "rmatch [R re_line_number] (Some y) (x # xs) [] = None"
    using Cons.prems by (simp add: rmatch_line_number)
  then have "sub_from re_line_number add_offset (Some y) (x # xs)
               = x # sub_from re_line_number add_offset (Some x) xs"
    by (rule sub_from_skip)
  then show ?case using Cons.IH [of x] by simp
qed

lemma numbered_decomp:
  "numbered s \<Longrightarrow> \<exists>w r. s = takeWhile is_digit s @ w # r \<and> dropWhile is_digit s = w # r \<and> is_space w"
  unfolding numbered_def
  by (cases "dropWhile is_digit s") (auto, metis takeWhile_dropWhile_id)

lemma first_line_digits:
  "takeWhile is_digit (first_line s) = takeWhile is_digit s \<and>
   dropWhile is_digit (first_line s) = first_line (dropWhile is_digit s)"
  by (induction s) (auto simp: nl_not_digit)

lemma numbered_first_line: "numbered (first_line s) = numbered s"
  unfolding numbered_def
  by (cases "dropWhile is_digit s") (simp_all add: first_line_digits del: dropWhile_eq_Nil_conv)

lemma renumber_first_line:
  "renumber_line (first_line s) =
     (if numbered s
      then str_of (int_of (takeWhile is_digit s) + OFFSET) @ first_line (dropWhile is_digit s)
      else first_line s)"
  by (simp add: renumber_line_def numbered_first_line first_line_digits)

lemma sub_line_start:
  assumes p: "p = None \<or> p = Some nl" and ne: "s \<noteq> []"
  shows "sub_from re_line_number add_offset p s =
           renumber_line (first_line s) @ sub_from re_line_number add_offset (Some nl) (after_first s)"
proof (cases "numbered s")
  case True
  then obtain w r where d: "s = takeWhile is_digit s @ w # r" "dropWhile is_digit s = w # r" "is_space w"
    using numbered_decomp by blast
  let ?ds = "takeWhile is_digit s"
  let ?str = "str_of (int_of ?ds + OFFSET)"
  have m: "rmatch [R re_line_number] p s [] = Some (Some w, r, [(2, [w]), (1, ?ds)])"
    using True p d(2) by (simp add: rmatch_line_number)
  have "length s = length ?ds + Suc (length r)"
    using d(1) by (metis length_append length_Cons)
  then have "length r < length s" by simp
  then have lhs: "sub_from re_line_number add_offset p s
                  = ?str @ w # sub_from re_line_number add_offset (Some w) r"
    using sub_from_match [OF m] by (simp add: add_offset_groups)
  have af: "after_first s = after_first (w # r)"
    using after_first_append [OF digits_no_nl, of s "w # r"] d(1) by simp
  have rn: "renumber_line (first_line s) = ?str @ first_line (w # r)"
    using True d(2) by (simp add: renumber_first_line)
  show ?thesis
  proof (cases "w = nl")
    case True
    then show ?thesis by (simp add: lhs af rn)
  next
    case False
    then show ?thesis using sub_mid_line [OF False, of r] by (simp add: lhs af rn)
  qed
next
  case False
  obtain x xs where s: "s = x # xs" using ne by (cases s) auto
  have "rmatch [R re_line_number] p (x # xs) [] = None"
    using False s by (simp add: rmatch_line_number)
  then have lhs: "sub_from re_line_number add_offset p s
               = x # sub_from re_line_number add_offset (Some x) xs"
    unfolding s by (rule sub_from_skip)
  have rn: "renumber_line (first_line s) = first_line s"
    using False by (simp add: renumber_first_line)
  show ?thesis
  proof (cases "x = nl")
    case True
    then show ?thesis using lhs rn by (simp add: s)
  next
    case False
    then show ?thesis using sub_mid_line [OF False, of xs] lhs rn by (simp add: s)
  qed
qed

lemma sub_lines:
  "p = None \<or> p = Some nl \<Longrightarrow>
     sub_from re_line_number add_offset p s = concat (map renumber_line (lines_keepends s))"
proof (induction s arbitrary: p rule: length_induct)
  case (1 s)
  show ?case
  proof (cases "s = []")
    case True
    then show ?thesis by (simp add: sub_from_nil rmatch_line_number numbered_def)
  next
    case False
    then have "length (after_first s) < length s"
      by (cases s) (auto simp: less_Suc_eq_le after_first_length)
    then have "sub_from re_line_number add_offset (Some nl) (after_first s)
                 = concat (map renumber_line (lines_keepends (after_first s)))"
      using 1 by blast
    then show ?thesis
      using sub_line_start [OF "1.prems" False] lines_keepends_unfold [OF False] by simp
  qed
qed

lemma add_offset_lines:
  "add_offset_to_numbers content = concat (map renumber_line (lines_keepends content))"
  by (simp add: add_offset_to_numbers_def sub_fn_sub_from sub_lines)

lemma concat_lines_keepends: "concat (lines_keepends s) = s"
proof (induction s rule: length_induct)
  case (1 s)
  show ?case
  proof (cases "s = []")
    case True
    then show ?thesis by simp
  next
    case False
    then have "length (after_first s) < length s"
      by (cases s) (auto simp: less_Suc_eq_le after_first_length)
    moreover have "first_line s @ after_first s = s" by (induction s) auto
    ultimately show ?thesis using 1 lines_keepends_unfold [OF False] by simp
  qed
qed

lemma renumber_line_count: "count_list (renumber_line l) nl = count_list l nl"
proof (cases "numbered l")
  case True
  have a: "count_list (str_of n) nl = 0" for n
    using str_of_digits [of nl n] nl_not_digit by (auto simp: count_list_0_iff)
  have b: "count_list (takeWhile is_digit l) nl = 0"
    using digits_no_nl [of l] by (simp add: count_list_0_iff)
  have "count_list l nl = count_list (takeWhile is_digit l @ dropWhile is_digit l) nl" by simp
  also have "\<dots> = count_list (dropWhile is_digit l) nl"
    unfolding count_list_append using b by simp
  finally show ?thesis using True a by (simp add: renumber_line_def)
next
  case False
  then show ?thesis by (simp add: renumber_line_def)
qed

lemma count_concat_renumber:
  "count_list (concat (map renumber_line ls)) nl = count_list (concat ls) nl"
  by (induction ls) (auto simp: renumber_line_count)

lemma renumber_line_numbered:
  assumes "ds \<noteq> []" "\<forall>d \<in> set ds. is_digit d" "is_space w"
  shows "renumber_line (ds @ w # rest) = str_of (int_of ds + OFFSET) @ w # rest"
proof -
  have w: "\<not> is_digit w" using assms(3) digit_not_space by blast
  have "takeWhile is_digit (ds @ w # rest) = ds" "dropWhile is_digit (ds @ w # rest) = w # rest"
    using assms(2) w by (auto simp: takeWhile_append2 dropWhile_append2)
  then show ?thesis using assms(1,3) by (simp add: renumber_line_def numbered_def)
qed

section \<open>The properties of the specification\<close>

subsection \<open>The text cleaner\<close>

text \<open>
  C1, as the specification states it, fails: \<^verbatim>\<open>clean_text\<close> removes one leading role label
  only, so a second label comes to the front and the next pass removes it.
  \<^verbatim>\<open>Ab: Cd: x\<close> cleans to \<^verbatim>\<open>Cd: x\<close>, which cleans to \<^verbatim>\<open>x\<close>.
\<close>

theorem clean_text_idempotent_counterexample:
  "clean_text ''Ab: Cd: x'' = ''Cd: x'' \<and> clean_text (clean_text ''Ab: Cd: x'') = ''x'' \<and>
   clean_text (clean_text ''Ab: Cd: x'') \<noteq> clean_text ''Ab: Cd: x''"
proof -
  have a: "clean_text ''Ab: Cd: x'' = ''Cd: x''" by code_simp
  have b: "clean_text ''Cd: x'' = ''x''" by code_simp
  show ?thesis by (simp add: a b)
qed

text \<open>
  C1, amended: cleaning a cleaned text changes nothing exactly when none of the first four
  rules still finds anything in it: no \<^verbatim>\<open>Character N:\<close> label, no role label with a coded
  identifier, no role label at the start, and none of the metadata markers. The rules for
  section markers and for whitespace never change a cleaned text.
\<close>

theorem clean_text_idempotent_iff:
  "clean_text (clean_text x) = clean_text x \<longleftrightarrow>
     re_search re_character (clean_text x) = None \<and>
     re_search re_role_code (clean_text x) = None \<and>
     re_search re_role_start (clean_text x) = None \<and>
     (\<forall>m \<in> set markers. find_str (clean_text x) m = None)"
  using clean_text_fixed_rules_idle [of "clean_text x"]
        clean_text_rules_idle_fixed [of x]
  by blast

text \<open>The amended C1 at \<^verbatim>\<open>Meet at 5:30 pm\<close>, a cleaned text with a colon that no rule
  matches, and at \<^verbatim>\<open>Ab: Cd: x\<close>, whose cleaned text still begins with a role label.\<close>

theorem clean_text_idempotent_iff_witness:
  "clean_text ''Meet at 5:30 pm'' = ''Meet at 5:30 pm'' \<and>
   re_search re_character (clean_text ''Meet at 5:30 pm'') = None \<and>
   re_search re_role_code (clean_text ''Meet at 5:30 pm'') = None \<and>
   re_search re_role_start (clean_text ''Meet at 5:30 pm'') = None \<and>
   list_all (\<lambda>m. find_str (clean_text ''Meet at 5:30 pm'') m = None) markers \<and>
   clean_text (clean_text ''Meet at 5:30 pm'') = clean_text ''Meet at 5:30 pm'' \<and>
   re_search re_role_start (clean_text ''Ab: Cd: x'') \<noteq> None \<and>
   clean_text (clean_text ''Ab: Cd: x'') \<noteq> clean_text ''Ab: Cd: x''"
proof -
  let ?x = "''Meet at 5:30 pm''"
  have y: "clean_text ?x = ?x" by code_simp
  have h1: "re_search re_character (clean_text ?x) = None" unfolding y by code_simp
  have h2: "re_search re_role_code (clean_text ?x) = None" unfolding y by code_simp
  have h3: "re_search re_role_start (clean_text ?x) = None" unfolding y by code_simp
  have h4: "list_all (\<lambda>m. find_str (clean_text ?x) m = None) markers" unfolding y by code_simp
  have h4': "\<forall>m \<in> set markers. find_str (clean_text ?x) m = None"
    using h4 by (simp add: list_all_iff)
  have pos: "clean_text (clean_text ?x) = clean_text ?x"
    using clean_text_idempotent_iff [of ?x] h1 h2 h3 h4' by blast
  have z: "clean_text ''Ab: Cd: x'' = ''Cd: x''" by code_simp
  have n1: "re_search re_role_start (clean_text ''Ab: Cd: x'') \<noteq> None" unfolding z by code_simp
  have neg: "clean_text (clean_text ''Ab: Cd: x'') \<noteq> clean_text ''Ab: Cd: x''"
    using clean_text_idempotent_iff [of "''Ab: Cd: x''"] n1 by blast
  show ?thesis using y h1 h2 h3 h4 pos neg n1 by blast
qed

text \<open>
  C8. \<^verbatim>\<open>clean_text\<close> maps \<^verbatim>\<open>Go now. You are A; continue the scene.\<close> to \<^verbatim>\<open>Go now.\<close>:
  the text is cut at the first occurrence of the marker \<^verbatim>\<open>You are A;\<close> (index 8) and
  the result is stripped.
\<close>

theorem clean_text_truncation_example:
  "clean_text ''Go now. You are A; continue the scene.'' = ''Go now.'' \<and>
   find_str ''Go now. You are A; continue the scene.'' ''You are A;'' = Some 8 \<and>
   strip (take 8 ''Go now. You are A; continue the scene.'') = ''Go now.''"
  by code_simp

subsection \<open>Collecting entries\<close>

text \<open>
  C2, as the specification states it, fails: a line must begin with its number to open an
  entry (\<^verbatim>\<open>re.match(r'^(\d+)\s+(.*)$', line)\<close>), so the file whose only line is
  \<^verbatim>\<open>Narrator: 12 Welcome to the show [apologetically]\<close> yields no entry and an empty output.
\<close>

theorem role_before_number_counterexample:
  "collect_entries [Some ''Narrator: 12 Welcome to the show [apologetically]''] = [] \<and>
   process_files [Some ''Narrator: 12 Welcome to the show [apologetically]''] = []"
proof -
  let ?raw = "''Narrator: 12 Welcome to the show [apologetically]''"
  have n: "normalize_newlines ?raw = ?raw" by code_simp
  have m1: "finditer monologue_pattern1 ?raw = []" by code_simp
  have m2: "finditer monologue_pattern2 ?raw = []" by code_simp
  have m3: "finditer scenario_pattern ?raw = []" by code_simp
  have s1: "sub monologue_pattern1 [nl] ?raw = ?raw" by code_simp
  have s2: "sub monologue_pattern2 [nl] ?raw = ?raw" by code_simp
  have s3: "sub scenario_pattern [nl] ?raw = ?raw" by code_simp
  have sm: "strip_metadata ?raw = ?raw" by code_simp
  have nm: "re_match re_numbered ?raw = None" by code_simp
  have cl: "collect_lines (split_on nl ?raw) [] = []" by code_simp
  have "process_file ?raw [] = []"
    by (simp only: process_file_def Let_def extract_monologues_def extract_scenarios_def
          n m1 m2 m3 s1 s2 s3 sm cl foldl.simps)
  then have ce: "collect_entries [Some ?raw] = []"
    by (simp only: collect_entries_def foldl.simps option.case)
  have "output_lines [] = []" by code_simp
  with ce show ?thesis by (simp add: process_files_def)
qed

text \<open>
  C2, amended: with the number first, as the collector reads a line, the file whose only
  line is \<^verbatim>\<open>12 Narrator: Welcome to the show [apologetically]\<close> yields the entry for
  number 12 with cleaned text \<^verbatim>\<open>Welcome to the show [apologetically]\<close>, and the output
  file is that one line.
\<close>

theorem number_before_role_example:
  "cleaned_entries (unique_entries
     (collect_entries [Some ''12 Narrator: Welcome to the show [apologetically]'']))
     = [(12, ''Welcome to the show [apologetically]'')] \<and>
   process_files [Some ''12 Narrator: Welcome to the show [apologetically]'']
     = ''12  Welcome to the show [apologetically]''"
proof -
  let ?raw = "''12 Narrator: Welcome to the show [apologetically]''"
  let ?e = "[(12::nat, ''Narrator: Welcome to the show [apologetically]'')]"
  have n: "normalize_newlines ?raw = ?raw" by code_simp
  have m1: "finditer monologue_pattern1 ?raw = []" by code_simp
  have m2: "finditer monologue_pattern2 ?raw = []" by code_simp
  have m3: "finditer scenario_pattern ?raw = []" by code_simp
  have s1: "sub monologue_pattern1 [nl] ?raw = ?raw" by code_simp
  have s2: "sub monologue_pattern2 [nl] ?raw = ?raw" by code_simp
  have s3: "sub scenario_pattern [nl] ?raw = ?raw" by code_simp
  have sm: "strip_metadata ?raw = ?raw" by code_simp
  have cl: "collect_lines (split_on nl ?raw) [] = ?e" by code_simp
  have "process_file ?raw [] = ?e"
    by (simp only: process_file_def Let_def extract_monologues_def extract_scenarios_def
          n m1 m2 m3 s1 s2 s3 sm cl foldl.simps)
  then have ce: "collect_entries [Some ?raw] = ?e"
    by (simp only: collect_entries_def foldl.simps option.case)
  have ue: "unique_entries ?e = ?e" by code_simp
  have ct: "clean_text ''Narrator: Welcome to the show [apologetically]''
              = ''Welcome to the show [apologetically]''" by code_simp
  have st: "str_of 12 = ''12''" by code_simp
  have c: "cleaned_entries ?e = [(12, ''Welcome to the show [apologetically]'')]"
    by (simp add: cleaned_entries_def ct)
  then show ?thesis
    by (simp add: process_files_def output_lines_def ce ue format_line_def st)
qed

text \<open>
  C3. Whatever the content and the entries collected so far, the fallback pass only
  appends, and the numbers of the entries it appends are distinct from one another and
  from every number already in the collection.
\<close>

theorem fallback_adds_no_duplicate:
  "\<exists>added. extract_scenarios content all_entries = all_entries @ added \<and>
     distinct (map fst added) \<and>
     set (map fst added) \<inter> set (map fst all_entries) = {}"
  unfolding extract_scenarios_def by (rule fallback_fold)

text \<open>
  C7. For the file \<^verbatim>\<open>--- MONOLOGUE ---\n7 SCENARIO: intro\n=====\nHello there.\nI am fine.\n\<close>
  the first monologue pattern yields the entry \<open>(7, ''Hello there. I am fine.'')\<close>: the
  body lines joined, every run of whitespace (the newline included) a single space. It is
  the only entry collected from the file.
\<close>

theorem monologue_example:
  "extract_monologues monologue_pattern1 ''--- MONOLOGUE ---\<newline>7 SCENARIO: intro\<newline>=====\<newline>Hello there.\<newline>I am fine.\<newline>'' [] = [(7, ''Hello there. I am fine.'')] \<and>
   collect_entries [Some ''--- MONOLOGUE ---\<newline>7 SCENARIO: intro\<newline>=====\<newline>Hello there.\<newline>I am fine.\<newline>''] = [(7, ''Hello there. I am fine.'')]"
proof -
  let ?raw = "''--- MONOLOGUE ---\<newline>7 SCENARIO: intro\<newline>=====\<newline>Hello there.\<newline>I am fine.\<newline>''"
  let ?e = "[(7::nat, ''Hello there. I am fine.'')]"
  have n: "normalize_newlines ?raw = ?raw" by code_simp
  have m1: "finditer monologue_pattern1 ?raw = [[(2, ''Hello there.\<newline>I am fine.\<newline>''), (1, ''7'')]]"
    by code_simp
  have me: "monologue_entry [(2, ''Hello there.\<newline>I am fine.\<newline>''), (1, ''7'')] = (7, ''Hello there. I am fine.'')"
    by code_simp
  have e1: "extract_monologues monologue_pattern1 ?raw [] = ?e"
    by (simp only: extract_monologues_def m1 me foldl.simps append.simps)
  have e2: "extract_monologues monologue_pattern2 ?raw ?e = ?e" by code_simp
  have e3: "extract_scenarios ?raw ?e = ?e" by code_simp
  have s1: "sub monologue_pattern1 [nl] ?raw = [nl]" by code_simp
  have s2: "sub monologue_pattern2 [nl] [nl] = [nl]" by code_simp
  have s3: "sub scenario_pattern [nl] [nl] = [nl]" by code_simp
  have sm: "strip_metadata [nl] = [nl]" by code_simp
  have cl: "collect_lines (split_on nl [nl]) ?e = ?e" by code_simp
  have "process_file ?raw [] = ?e"
    by (simp only: process_file_def Let_def n e1 e2 e3 s1 s2 s3 sm cl)
  then have "collect_entries [Some ?raw] = ?e"
    by (simp only: collect_entries_def foldl.simps option.case)
  with e1 show ?thesis by simp
qed

subsection \<open>Sorting, deduplication and the output file\<close>

text \<open>
  C4. For every list of input files, the numbers at the start of the lines of the output
  file are strictly increasing from the first line to the last.
\<close>

theorem output_strictly_increasing:
  "sorted_wrt (<) (map line_number (file_lines (process_files files)))"
  unfolding process_files_def file_lines_output by (rule output_lines_sorted)

text \<open>
  C5. When a number occurs in the collected entries, exactly one entry with that number
  survives deduplication, and it is the first entry with that number in collection order
  (\<open>find\<close> returns the first element that satisfies the test).
\<close>

theorem dedup_keeps_first:
  "find (\<lambda>e. fst e = n) all_entries = Some e \<Longrightarrow>
     filter (\<lambda>e'. fst e' = n) (unique_entries all_entries) = [e]"
  unfolding unique_entries_filter by (rule find_take_filter)

text \<open>C5 at three entries, two of which share the number 13.\<close>

theorem dedup_keeps_first_witness:
  "find (\<lambda>e. fst e = 13) [(13::nat, ''x''), (12, ''a''), (13, ''y'')] = Some (13, ''x'') \<and>
   filter (\<lambda>e'. fst e' = 13) (unique_entries [(13, ''x''), (12, ''a''), (13, ''y'')]) = [(13, ''x'')]"
proof -
  have h: "find (\<lambda>e. fst e = 13) [(13::nat, ''x''), (12, ''a''), (13, ''y'')] = Some (13, ''x'')"
    by simp
  from h dedup_keeps_first [OF h] show ?thesis by blast
qed

text \<open>
  C6. Every line of the output file is a number, two spaces and a text; the text is not
  empty, holds no newline and no run of whitespace, and neither begins nor ends with
  whitespace. An entry that survives deduplication and whose cleaned text is empty has no
  line in the output: no line carries its number.
\<close>

theorem output_line_form:
  "(\<forall>l \<in> set (file_lines (process_files files)).
      \<exists>n t. l = str_of n @ ''  '' @ t \<and> t \<noteq> [] \<and> nl \<notin> set t \<and> no_ws_run t \<and>
            \<not> is_space (hd t) \<and> \<not> is_space (last t)) \<and>
   (\<forall>(n, t) \<in> set (unique_entries (collect_entries files)).
      clean_text t = [] \<longrightarrow> n \<notin> line_number ` set (file_lines (process_files files)))"
proof -
  let ?es = "collect_entries files"
  have fl: "file_lines (process_files files) = output_lines ?es"
    unfolding process_files_def by (rule file_lines_output)
  have a: "\<exists>n t. l = str_of n @ ''  '' @ t \<and> t \<noteq> [] \<and> nl \<notin> set t \<and> no_ws_run t \<and>
            \<not> is_space (hd t) \<and> \<not> is_space (last t)" if "l \<in> set (output_lines ?es)" for l
  proof -
    from that obtain n t where l: "l = format_line n (clean_text t)" "clean_text t \<noteq> []"
      using output_lines_char by blast
    then show ?thesis
      using clean_text_normal [of t] unfolding format_line_def by blast
  qed
  have b: "n \<notin> line_number ` set (output_lines ?es)"
    if "(n, t) \<in> set (unique_entries ?es)" "clean_text t = []" for n t
  proof
    assume "n \<in> line_number ` set (output_lines ?es)"
    then obtain l where l: "l \<in> set (output_lines ?es)" "line_number l = n" by auto
    then obtain n' t' where f: "l = format_line n' (clean_text t')"
        "(n', t') \<in> set (unique_entries ?es)" "clean_text t' \<noteq> []"
      using output_lines_char by blast
    then have "n' = n" using l(2) by (simp add: line_number_format)
    moreover have "distinct (map fst (unique_entries ?es))"
      using unique_entries_strict [of ?es] strict_sorted_iff by blast
    ultimately have "t' = t"
      using f(2) that(1) eq_key_imp_eq_value by metis
    then show False using f(3) that(2) by simp
  qed
  show ?thesis unfolding fl using a b by blast
qed

text \<open>C6 at a file of two numbered lines, the first of which is a bare role label and
  cleans to the empty text.\<close>

theorem output_line_form_witness:
  "file_lines (process_files [Some ''3 Narrator:\<newline>12 Narrator: Hi'']) = [''12  Hi''] \<and>
   (\<exists>n t. ''12  Hi'' = str_of n @ ''  '' @ t \<and> t \<noteq> [] \<and> nl \<notin> set t \<and> no_ws_run t \<and>
          \<not> is_space (hd t) \<and> \<not> is_space (last t)) \<and>
   (3, ''Narrator:'') \<in> set (unique_entries (collect_entries [Some ''3 Narrator:\<newline>12 Narrator: Hi''])) \<and>
   clean_text ''Narrator:'' = [] \<and>
   3 \<notin> line_number ` set (file_lines (process_files [Some ''3 Narrator:\<newline>12 Narrator: Hi'']))"
proof -
  let ?raw = "''3 Narrator:\<newline>12 Narrator: Hi''"
  let ?e = "[(3::nat, ''Narrator:''), (12, ''Narrator: Hi'')]"
  have n: "normalize_newlines ?raw = ?raw" by code_simp
  have m1: "finditer monologue_pattern1 ?raw = []" by code_simp
  have m2: "finditer monologue_pattern2 ?raw = []" by code_simp
  have m3: "finditer scenario_pattern ?raw = []" by code_simp
  have s1: "sub monologue_pattern1 [nl] ?raw = ?raw" by code_simp
  have s2: "sub monologue_pattern2 [nl] ?raw = ?raw" by code_simp
  have s3: "sub scenario_pattern [nl] ?raw = ?raw" by code_simp
  have sm: "strip_metadata ?raw = ?raw" by code_simp
  have cl: "collect_lines (split_on nl ?raw) [] = ?e" by code_simp
  have "process_file ?raw [] = ?e"
    by (simp only: process_file_def Let_def extract_monologues_def extract_scenarios_def
          n m1 m2 m3 s1 s2 s3 sm cl foldl.simps)
  then have ce: "collect_entries [Some ?raw] = ?e"
    by (simp only: collect_entries_def foldl.simps option.case)
  have ue: "unique_entries ?e = ?e" by code_simp
  have c1: "clean_text ''Narrator:'' = []" by code_simp
  have c2: "clean_text ''Narrator: Hi'' = ''Hi''" by code_simp
  have st: "str_of 12 = ''12''" by code_simp
  have pf: "process_files [Some ?raw] = ''12  Hi''"
    by (simp add: process_files_def output_lines_def cleaned_entries_def ce ue c1 c2
          format_line_def st)
  have fl: "file_lines ''12  Hi'' = [''12  Hi'']" by code_simp
  have mem: "(3, ''Narrator:'') \<in> set (unique_entries (collect_entries [Some ?raw]))"
    by (simp add: ce ue)
  from output_line_form [of "[Some ?raw]"]
  have a: "\<forall>l \<in> set (file_lines (process_files [Some ?raw])).
      \<exists>n t. l = str_of n @ ''  '' @ t \<and> t \<noteq> [] \<and> nl \<notin> set t \<and> no_ws_run t \<and>
            \<not> is_space (hd t) \<and> \<not> is_space (last t)"
    and b: "\<forall>(n, t) \<in> set (unique_entries (collect_entries [Some ?raw])).
      clean_text t = [] \<longrightarrow> n \<notin> line_number ` set (file_lines (process_files [Some ?raw]))"
    by blast+
  from a have a': "\<exists>n t. ''12  Hi'' = str_of n @ ''  '' @ t \<and> t \<noteq> [] \<and> nl \<notin> set t \<and> no_ws_run t \<and>
            \<not> is_space (hd t) \<and> \<not> is_space (last t)"
    unfolding pf fl by simp
  from b mem c1 have b': "3 \<notin> line_number ` set (file_lines (process_files [Some ?raw]))"
    by blast
  show ?thesis using a' b' mem c1 by (simp add: pf fl)
qed

subsection \<open>The offset renumbering script\<close>

text \<open>
  C9. For a file that \<^verbatim>\<open>main\<close> selects (its path holds \<^verbatim>\<open>actor_assignments<n>.txt\<close> with
  \<open>n\<close> at least \<^verbatim>\<open>START_FILE\<close>), the new content is the old one line by line, and every
  line that begins with digits \<open>ds\<close> followed by a whitespace character \<open>w\<close> has become
  the decimal form of \<open>ds\<close> plus 612, followed by \<open>w\<close> and the rest of the line unchanged.
\<close>

theorem renumbering_lines:
  assumes "selected filepath" and "(filepath, content) \<in> set files"
  shows "\<exists>ls'. (filepath, concat ls') \<in> set (main files) \<and>
           length ls' = length (lines_keepends content) \<and>
           (\<forall>i < length ls'. \<forall>ds w rest.
              lines_keepends content ! i = ds @ w # rest \<and> ds \<noteq> [] \<and>
              (\<forall>d \<in> set ds. is_digit d) \<and> is_space w
              \<longrightarrow> ls' ! i = str_of (int_of ds + 612) @ w # rest)"
proof -
  let ?ls' = "map renumber_line (lines_keepends content)"
  have "(filepath, add_offset_to_numbers content) \<in> set (main files)"
    using assms unfolding main_def by force
  then have "(filepath, concat ?ls') \<in> set (main files)"
    by (simp only: add_offset_lines)
  moreover have "?ls' ! i = str_of (int_of ds + 612) @ w # rest"
    if "i < length ?ls'" "lines_keepends content ! i = ds @ w # rest" "ds \<noteq> []"
       "\<forall>d \<in> set ds. is_digit d" "is_space w" for i ds w rest
    using that renumber_line_numbered [of ds w rest] by (simp add: OFFSET_def)
  ultimately show ?thesis
    by (intro exI [of _ ?ls']) auto
qed

text \<open>C9 at the line \<^verbatim>\<open>5 Hello world\<close> of a file numbered 8: it becomes
  \<^verbatim>\<open>617 Hello world\<close>.\<close>

theorem renumbering_lines_witness:
  "selected ''/workspace/super_fun_lines/fun_lines/Chris_Arias_cs_tagless/actor_assignments8.txt'' \<and>
   (''/workspace/super_fun_lines/fun_lines/Chris_Arias_cs_tagless/actor_assignments8.txt'',
      ''5 Hello world'')
     \<in> set [(''/workspace/super_fun_lines/fun_lines/Chris_Arias_cs_tagless/actor_assignments8.txt'',
              ''5 Hello world'')] \<and>
   (''/workspace/super_fun_lines/fun_lines/Chris_Arias_cs_tagless/actor_assignments8.txt'',
      ''617 Hello world'')
     \<in> set (main [(''/workspace/super_fun_lines/fun_lines/Chris_Arias_cs_tagless/actor_assignments8.txt'',
                    ''5 Hello world'')])"
proof -
  let ?p = "''/workspace/super_fun_lines/fun_lines/Chris_Arias_cs_tagless/actor_assignments8.txt''"
  let ?c = "''5 Hello world''"
  have sel: "selected ?p" by code_simp
  have mem: "(?p, ?c) \<in> set [(?p, ?c)]" by simp
  have lk: "lines_keepends ?c = [?c]" by code_simp
  have st: "str_of (int_of ''5'' + 612) = ''617''" by code_simp
  have dg: "\<forall>d \<in> set ''5''. is_digit d" by code_simp
  have sp: "is_space (CHR '' '')" by code_simp
  from renumbering_lines [OF sel mem] obtain ls' where
    a: "(?p, concat ls') \<in> set (main [(?p, ?c)])" and
    b: "length ls' = length (lines_keepends ?c)" and
    c: "\<forall>i < length ls'. \<forall>ds w rest.
          lines_keepends ?c ! i = ds @ w # rest \<and> ds \<noteq> [] \<and>
          (\<forall>d \<in> set ds. is_digit d) \<and> is_space w
          \<longrightarrow> ls' ! i = str_of (int_of ds + 612) @ w # rest"
    by blast
  have len: "length ls' = 1" using b lk by simp
  have l0: "lines_keepends ?c ! 0 = ''5'' @ CHR '' '' # ''Hello world''" unfolding lk by simp
  have "0 < length ls'" using len by simp
  then have "ls' ! 0 = str_of (int_of ''5'' + 612) @ CHR '' '' # ''Hello world''"
    using c [rule_format, of 0 "''5''" "CHR '' ''" "''Hello world''"] l0 dg sp by blast
  then have "ls' ! 0 = ''617 Hello world''" unfolding st by simp
  then have "ls' = [''617 Hello world'']"
    using len by (cases ls') auto
  then have "concat ls' = ''617 Hello world''" by simp
  with a sel mem show ?thesis by simp
qed

text \<open>
  C10. The substitution works line by line: a line that is not numbered (it does not begin
  with digits immediately followed by a whitespace character, the newline that ends the
  line included) is unchanged, and the content has as many newlines after the
  substitution as before.
\<close>

theorem renumbering_frame:
  "\<exists>ls'. add_offset_to_numbers content = concat ls' \<and>
          content = concat (lines_keepends content) \<and>
          length ls' = length (lines_keepends content) \<and>
          (\<forall>i < length ls'. \<not> numbered (lines_keepends content ! i)
              \<longrightarrow> ls' ! i = lines_keepends content ! i) \<and>
          count_list (add_offset_to_numbers content) nl = count_list content nl"
proof -
  let ?ls' = "map renumber_line (lines_keepends content)"
  have "count_list (concat ?ls') nl = count_list (concat (lines_keepends content)) nl"
    by (rule count_concat_renumber)
  then have "count_list (add_offset_to_numbers content) nl = count_list content nl"
    by (simp only: add_offset_lines concat_lines_keepends)
  then show ?thesis
    by (intro exI [of _ ?ls']) (auto simp: add_offset_lines concat_lines_keepends renumber_line_def)
qed

text \<open>C10 at a line whose number is not at its start, and at a content of two lines.\<close>

theorem renumbering_frame_witness:
  "\<not> numbered ''Hello 5 world'' \<and>
   add_offset_to_numbers ''Hello 5 world'' = ''Hello 5 world'' \<and>
   count_list (add_offset_to_numbers ''12\<newline>x 3\<newline>'') nl = 2"
proof -
  let ?c = "''Hello 5 world''"
  have nn: "\<not> numbered ?c" by code_simp
  have lk: "lines_keepends ?c = [?c]" by code_simp
  from renumbering_frame [of ?c] obtain ls' where
    a: "add_offset_to_numbers ?c = concat ls'" and
    b: "length ls' = length (lines_keepends ?c)" and
    c: "\<forall>i < length ls'. \<not> numbered (lines_keepends ?c ! i) \<longrightarrow> ls' ! i = lines_keepends ?c ! i"
    by blast
  have len: "length ls' = 1" using b lk by simp
  then have "ls' ! 0 = ?c" using c nn lk by simp
  then have "ls' = [?c]" using len by (cases ls') auto
  then have 1: "add_offset_to_numbers ?c = ?c" using a by simp
  have cnt: "count_list ''12\<newline>x 3\<newline>'' nl = 2" by code_simp
  from renumbering_frame [of "''12\<newline>x 3\<newline>''"]
  have "count_list (add_offset_to_numbers ''12\<newline>x 3\<newline>'') nl = count_list ''12\<newline>x 3\<newline>'' nl"
    by blast
  then show ?thesis using nn 1 cnt by simp
qed

end
